theory Spec2Isabelle
  imports Main "HOL-Library.AList" "HOL-Library.Sublist"
begin

section \<open>Data model\<close>

text \<open>
  The request configuration built by the \<^verbatim>\<open>/start_automation\<close> route. All fields but
  \<^verbatim>\<open>delay\<close> are strings; \<^verbatim>\<open>delay\<close> is \<^verbatim>\<open>parseInt(..) || 30\<close>, an integer.
\<close>

record config =
  chatId :: string
  namePrefix :: string
  delay :: int
  cookies :: string
  messages :: string

text \<open>
  \<^verbatim>\<open>class PersistentAutomationState\<close>. Times are milliseconds since the epoch; the two
  counters start at 0 and are only ever incremented by 1, so they are natural numbers
  (exact in a JavaScript number below \<open>2^53\<close>). \<^verbatim>\<open>null\<close> is \<open>None\<close>.
  A task that sits in the registry always carries a valid date in \<^verbatim>\<open>lastUpdated\<close>:
  it is written by \<^verbatim>\<open>new Date()\<close>, or it has passed the age test of \<^verbatim>\<open>loadTasks\<close>,
  which an invalid date fails.
\<close>

record PersistentAutomationState =
  taskId :: string
  running :: bool
  messageCount :: nat
  startTime :: "int option"
  config :: "config option"
  lastUpdated :: int
  processId :: "string option"
  messageRotationIndex :: nat

text \<open>The constructor; \<open>now\<close> is the value of \<^verbatim>\<open>new Date()\<close> at the call.\<close>

definition new_PersistentAutomationState :: "int \<Rightarrow> string \<Rightarrow> PersistentAutomationState" where
  "new_PersistentAutomationState now tid =
     \<lparr> taskId = tid, running = False, messageCount = 0, startTime = None, config = None,
       lastUpdated = now, processId = None, messageRotationIndex = 0 \<rparr>"

text \<open>
  One record of the durable file after \<^verbatim>\<open>JSON.parse\<close>. \<^verbatim>\<open>JSON.stringify\<close> and
  \<^verbatim>\<open>JSON.parse\<close> are the identity on booleans, integers, strings, \<^verbatim>\<open>null\<close> and on the
  configuration object; a date is written as its ISO string. The field
  \<open>d_lastUpdated\<close> holds what \<^verbatim>\<open>new Date(v)\<close> makes of the stored value \<open>v\<close>: its
  time value, or \<open>None\<close> for an invalid date (time value NaN).
\<close>

record taskData =
  d_taskId :: string
  d_running :: bool
  d_messageCount :: nat
  d_startTime :: "int option"
  d_config :: "config option"
  d_lastUpdated :: "int option"
  d_processId :: "string option"
  d_messageRotationIndex :: nat

text \<open>
  What \<^verbatim>\<open>JSON.stringify\<close> writes for one task and \<^verbatim>\<open>JSON.parse\<close> reads back: every
  field as it is, the date through its ISO string, which denotes the same millisecond.
\<close>

definition toJSON :: "PersistentAutomationState \<Rightarrow> taskData" where
  "toJSON t =
     \<lparr> d_taskId = taskId t, d_running = running t, d_messageCount = messageCount t,
       d_startTime = startTime t, d_config = config t, d_lastUpdated = Some (lastUpdated t),
       d_processId = processId t, d_messageRotationIndex = messageRotationIndex t \<rparr>"

text \<open>
  \<^verbatim>\<open>Object.assign(new PersistentAutomationState(taskId), taskData)\<close> followed by
  \<^verbatim>\<open>task.lastUpdated = new Date(task.lastUpdated)\<close>: every field of the stored record
  overrides the constructor's, the \<^verbatim>\<open>taskId\<close> set from the key included. The date may be
  invalid, so the task is built from the record and the time value \<open>t\<close> of its date
  once that is known to be valid (see \<open>load_entries\<close>).
\<close>

definition assign_taskData :: "taskData \<Rightarrow> int \<Rightarrow> PersistentAutomationState" where
  "assign_taskData d t =
     \<lparr> taskId = d_taskId d, running = d_running d, messageCount = d_messageCount d,
       startTime = d_startTime d, config = d_config d, lastUpdated = t,
       processId = d_processId d, messageRotationIndex = d_messageRotationIndex d \<rparr>"

section \<open>The registry and its durable file\<close>

text \<open>
  \<^verbatim>\<open>this.tasks\<close> is a JavaScript \<^verbatim>\<open>Map\<close>: keys are compared exactly
  and iteration follows insertion order, so it is an association list with distinct
  keys. \<^verbatim>\<open>set\<close> replaces the value of a present key in place and appends a new key.
\<close>

type_synonym registry = "(string \<times> PersistentAutomationState) list"

definition Map_get :: "registry \<Rightarrow> string \<Rightarrow> PersistentAutomationState option" where
  "Map_get m k = map_of m k"

definition Map_set :: "string \<Rightarrow> PersistentAutomationState \<Rightarrow> registry \<Rightarrow> registry" where
  "Map_set k v m = AList.update k v m"

definition Map_delete :: "string \<Rightarrow> registry \<Rightarrow> registry" where
  "Map_delete k m = AList.delete k m"

text \<open>
  The file \<^verbatim>\<open>automation_tasks.json\<close>. \<open>Unreadable\<close>: \<^verbatim>\<open>fs.readFile\<close> rejects (no such
  file, no permission). \<open>Text Garbage\<close>: the content is not JSON. \<open>Text (JsonObject kvs)\<close>:
  an object of task records, as \<^verbatim>\<open>saveTasks\<close> writes it.
\<close>

datatype file_text = Garbage | JsonObject "(string \<times> taskData) list"

datatype durable_file = Unreadable | Text file_text

datatype error = IOError | SyntaxError | TypeError

record world =
  tasks :: registry
  tasksFile :: durable_file

definition fs_readFile :: "durable_file \<Rightarrow> error + file_text" where
  "fs_readFile f = (case f of Unreadable \<Rightarrow> Inl IOError | Text t \<Rightarrow> Inr t)"

definition JSON_parse :: "file_text \<Rightarrow> error + (string \<times> taskData) list" where
  "JSON_parse t = (case t of Garbage \<Rightarrow> Inl SyntaxError | JsonObject kvs \<Rightarrow> Inr kvs)"

text \<open>\<open>ok\<close> tells whether the disk accepts this write.\<close>

definition fs_writeFile :: "bool \<Rightarrow> file_text \<Rightarrow> durable_file \<Rightarrow> error + durable_file" where
  "fs_writeFile ok t f = (if ok then Inr (Text t) else Inl IOError)"

definition JSON_stringify :: "registry \<Rightarrow> file_text" where
  "JSON_stringify m = JsonObject (map (\<lambda>(k, t). (k, toJSON t)) m)"

text \<open>
  The loop of \<^verbatim>\<open>loadTasks\<close> over \<^verbatim>\<open>Object.entries(savedTasks)\<close>. The comparison
  \<^verbatim>\<open>currentTime - task.lastUpdated < 24 * 60 * 60 * 1000\<close> is false on an invalid date.
\<close>

fun load_entries :: "int \<Rightarrow> (string \<times> taskData) list \<Rightarrow> registry \<Rightarrow> registry" where
  "load_entries currentTime [] m = m"
| "load_entries currentTime ((tid, d) # rest) m =
     (case d_lastUpdated d of
        None \<Rightarrow> load_entries currentTime rest m
      | Some t \<Rightarrow>
          if currentTime - t < 24 * 60 * 60 * 1000
          then load_entries currentTime rest (Map_set tid (assign_taskData d t) m)
          else load_entries currentTime rest m)"

text \<open>The body of the \<^verbatim>\<open>try\<close> block of \<^verbatim>\<open>loadTasks\<close>: reading and parsing may throw.\<close>

definition loadTasks_try :: "int \<Rightarrow> world \<Rightarrow> error + world" where
  "loadTasks_try currentTime w =
     (case fs_readFile (tasksFile w) of
        Inl e \<Rightarrow> Inl e
      | Inr data \<Rightarrow>
          (case JSON_parse data of
             Inl e \<Rightarrow> Inl e
           | Inr savedTasks \<Rightarrow> Inr (w\<lparr>tasks := load_entries currentTime savedTasks (tasks w)\<rparr>)))"

text \<open>\<^verbatim>\<open>loadTasks\<close>: the \<^verbatim>\<open>catch\<close> logs the error and returns normally.\<close>

definition loadTasks :: "int \<Rightarrow> world \<Rightarrow> error + world" where
  "loadTasks currentTime w =
     (case loadTasks_try currentTime w of Inl e \<Rightarrow> Inr w | Inr w' \<Rightarrow> Inr w')"

definition saveTasks_try :: "bool \<Rightarrow> world \<Rightarrow> error + world" where
  "saveTasks_try ok w =
     (case fs_writeFile ok (JSON_stringify (tasks w)) (tasksFile w) of
        Inl e \<Rightarrow> Inl e
      | Inr f \<Rightarrow> Inr (w\<lparr>tasksFile := f\<rparr>))"

definition saveTasks :: "bool \<Rightarrow> world \<Rightarrow> error + world" where
  "saveTasks ok w = (case saveTasks_try ok w of Inl e \<Rightarrow> Inr w | Inr w' \<Rightarrow> Inr w')"

text \<open>\<^verbatim>\<open>new TaskManager()\<close>: an empty map, then \<^verbatim>\<open>loadTasks\<close>.\<close>

definition new_TaskManager :: "int \<Rightarrow> durable_file \<Rightarrow> error + world" where
  "new_TaskManager currentTime f = loadTasks currentTime \<lparr> tasks = [], tasksFile = f \<rparr>"

definition addTask :: "bool \<Rightarrow> string \<Rightarrow> PersistentAutomationState \<Rightarrow> world \<Rightarrow> error + world" where
  "addTask ok tid st w = saveTasks ok (w\<lparr>tasks := Map_set tid st (tasks w)\<rparr>)"

text \<open>
  \<^verbatim>\<open>getTask\<close> returns the stored object itself, so the caller sees the refreshed date.
\<close>

definition getTask ::
  "int \<Rightarrow> bool \<Rightarrow> string \<Rightarrow> world \<Rightarrow> error + (PersistentAutomationState option \<times> world)" where
  "getTask now ok tid w =
     (case Map_get (tasks w) tid of
        None \<Rightarrow> Inr (None, w)
      | Some task \<Rightarrow>
          (let task' = task\<lparr>lastUpdated := now\<rparr> in
           case saveTasks ok (w\<lparr>tasks := Map_set tid task' (tasks w)\<rparr>) of
             Inl e \<Rightarrow> Inl e
           | Inr w' \<Rightarrow> Inr (Some task', w')))"

text \<open>
  The partial objects that the callers of \<^verbatim>\<open>updateTask\<close> pass hold \<^verbatim>\<open>running\<close>,
  \<^verbatim>\<open>messageCount\<close> or both; \<^verbatim>\<open>Object.assign\<close> writes the fields that are there.
\<close>

record updates =
  u_running :: "bool option"
  u_messageCount :: "nat option"

definition Object_assign :: "PersistentAutomationState \<Rightarrow> updates \<Rightarrow> PersistentAutomationState" where
  "Object_assign task u =
     (let t1 = (case u_running u of None \<Rightarrow> task | Some r \<Rightarrow> task\<lparr>running := r\<rparr>)
      in case u_messageCount u of None \<Rightarrow> t1 | Some n \<Rightarrow> t1\<lparr>messageCount := n\<rparr>)"

definition updateTask :: "int \<Rightarrow> bool \<Rightarrow> string \<Rightarrow> updates \<Rightarrow> world \<Rightarrow> error + world" where
  "updateTask now ok tid u w =
     (case Map_get (tasks w) tid of
        None \<Rightarrow> Inr w
      | Some task \<Rightarrow>
          saveTasks ok (w\<lparr>tasks := Map_set tid ((Object_assign task u)\<lparr>lastUpdated := now\<rparr>) (tasks w)\<rparr>))"

definition removeTask :: "bool \<Rightarrow> string \<Rightarrow> world \<Rightarrow> error + world" where
  "removeTask ok tid w = saveTasks ok (w\<lparr>tasks := Map_delete tid (tasks w)\<rparr>)"

text \<open>\<^verbatim>\<open>getAllTasks\<close>: a copy of the map, in its iteration order.\<close>

definition getAllTasks :: "world \<Rightarrow> error + registry" where
  "getAllTasks w = Inr (tasks w)"

section \<open>Message rotation\<close>

text \<open>
  \<^verbatim>\<open>getNextMessage(messages, automationStateObj = null)\<close>. The state object is mutated in
  place, so it is returned beside the message. The index read is in range, since the
  list is not empty there.
\<close>

definition getNextMessage ::
  "string list \<Rightarrow> PersistentAutomationState option \<Rightarrow> string \<times> PersistentAutomationState option" where
  "getNextMessage msgs automationStateObj =
     (if msgs = [] then (''Hello!'', automationStateObj)
      else case automationStateObj of
        Some st \<Rightarrow>
          (msgs ! (messageRotationIndex st mod length msgs),
           Some (st\<lparr>messageRotationIndex := messageRotationIndex st + 1\<rparr>))
      | None \<Rightarrow> (msgs ! 0, None))"

text \<open>\<open>k\<close> successive calls on the same state object; the messages in the order returned.\<close>

fun next_calls :: "nat \<Rightarrow> string list \<Rightarrow> PersistentAutomationState \<Rightarrow> string list \<times> PersistentAutomationState" where
  "next_calls 0 msgs st = ([], st)"
| "next_calls (Suc k) msgs st =
     (case getNextMessage msgs (Some st) of
        (m, Some st') \<Rightarrow> (case next_calls k msgs st' of (ms, st'') \<Rightarrow> (m # ms, st''))
      | (m, None) \<Rightarrow> ([m], st))"

section \<open>Strings\<close>

text \<open>
  Strings are lists of 8-bit characters; \<^verbatim>\<open>toLowerCase\<close> and \<^verbatim>\<open>toUpperCase\<close> map the
  ASCII letters and leave every other character as it is.
\<close>

definition lower_char :: "char \<Rightarrow> char" where
  "lower_char c =
     (case map_of (zip ''ABCDEFGHIJKLMNOPQRSTUVWXYZ'' ''abcdefghijklmnopqrstuvwxyz'') c of
        None \<Rightarrow> c | Some l \<Rightarrow> l)"

definition upper_char :: "char \<Rightarrow> char" where
  "upper_char c =
     (case map_of (zip ''abcdefghijklmnopqrstuvwxyz'' ''ABCDEFGHIJKLMNOPQRSTUVWXYZ'') c of
        None \<Rightarrow> c | Some u \<Rightarrow> u)"

definition toLowerCase :: "string \<Rightarrow> string" where
  "toLowerCase s = map lower_char s"

definition toUpperCase :: "string \<Rightarrow> string" where
  "toUpperCase s = map upper_char s"

text \<open>\<^verbatim>\<open>s.includes(k)\<close>: \<open>k\<close> occurs in \<open>s\<close> as a contiguous substring.\<close>

fun str_includes :: "string \<Rightarrow> string \<Rightarrow> bool" where
  "str_includes [] k = (k = [])"
| "str_includes (c # cs) k = (prefix k (c # cs) \<or> str_includes cs k)"

text \<open>\<^verbatim>\<open>trim\<close> on the ASCII white space and line terminators.\<close>

definition isWhiteSpace :: "char \<Rightarrow> bool" where
  "isWhiteSpace c = (c \<in> set [CHR 0x09, CHR 0x0A, CHR 0x0B, CHR 0x0C, CHR 0x0D, CHR '' ''])"

definition trim :: "string \<Rightarrow> string" where
  "trim s = rev (dropWhile isWhiteSpace (rev (dropWhile isWhiteSpace s)))"

text \<open>\<^verbatim>\<open>s.split('\n')\<close>; the result always has at least one piece.\<close>

fun split_lines :: "string \<Rightarrow> string list" where
  "split_lines [] = [[]]"
| "split_lines (c # cs) =
     (if c = CHR 0x0A then [] # split_lines cs
      else (case split_lines cs of [] \<Rightarrow> [[c]] | l # ls \<Rightarrow> (c # l) # ls))"

section \<open>Discovery of the message input\<close>

text \<open>
  What \<^verbatim>\<open>findMessageInput\<close> reads of an element handle. A missing property or attribute
  (\<^verbatim>\<open>undefined\<close>, \<^verbatim>\<open>null\<close>) is \<open>None\<close>. The three flags say whether the call of
  \<^verbatim>\<open>page.evaluate\<close> that tests editability, the click, and the call of \<^verbatim>\<open>page.evaluate\<close>
  that reads the hint text throw.
\<close>

record element =
  contentEditable :: string
  tagName :: string
  placeholder :: "string option"
  aria_label :: "string option"
  aria_placeholder :: "string option"
  editable_check_throws :: bool
  click_throws :: bool
  hint_read_throws :: bool

text \<open>
  The document: what \<^verbatim>\<open>page.$$(selector)\<close> returns for a selector, in document order,
  or \<open>None\<close> when the query throws. The document is taken as it is during the scan.
\<close>

type_synonym page = "string \<Rightarrow> element list option"

definition messageInputSelectors :: "string list" where
  \<open>messageInputSelectors =
     [''div[contenteditable="true"][role="textbox"]'',
      ''div[contenteditable="true"][data-lexical-editor="true"]'',
      ''div[aria-label*="message" i][contenteditable="true"]'',
      ''div[aria-label*="Message" i][contenteditable="true"]'',
      ''div[contenteditable="true"][spellcheck="true"]'',
      ''[role="textbox"][contenteditable="true"]'',
      ''textarea[placeholder*="message" i]'',
      ''div[aria-placeholder*="message" i]'',
      ''div[data-placeholder*="message" i]'',
      ''[contenteditable="true"]'',
      ''textarea'',
      ''input[type="text"]'']\<close>

definition keywords_list :: "string list" where
  "keywords_list = [''message'', ''write'', ''type'', ''send'', ''chat'', ''msg'', ''reply'', ''text'', ''aa'']"

definition isEditable :: "element \<Rightarrow> bool" where
  "isEditable el =
     (contentEditable el = ''true'' \<or> tagName el = ''TEXTAREA'' \<or> tagName el = ''INPUT'')"

text \<open>\<^verbatim>\<open>a || b\<close> on optional strings: \<open>a\<close> when it is a non-empty string, else \<open>b\<close>.\<close>

definition js_or :: "string option \<Rightarrow> string option \<Rightarrow> string option" where
  "js_or a b = (case a of Some (c # cs) \<Rightarrow> a | _ \<Rightarrow> b)"

definition elementText :: "element \<Rightarrow> string" where
  "elementText el =
     (case js_or (js_or (js_or (placeholder el) (aria_label el)) (aria_placeholder el)) (Some [])
      of Some s \<Rightarrow> s | None \<Rightarrow> [])"

definition hasKeyword :: "string \<Rightarrow> bool" where
  "hasKeyword text = list_ex (\<lambda>keyword. str_includes (toLowerCase text) keyword) keywords_list"

definition isFallbackSelector :: "string \<Rightarrow> bool" where
  \<open>isFallbackSelector selector =
     (selector = ''[contenteditable="true"]'' \<or> selector = ''textarea'' \<or>
      selector = ''input[type="text"]'')\<close>

text \<open>
  The inner loop over the elements of one selector. A throw of either
  \<^verbatim>\<open>page.evaluate\<close> is caught, logged, and the loop goes on; a throw of the click is
  ignored.
\<close>

fun scan_elements :: "nat \<Rightarrow> string \<Rightarrow> element list \<Rightarrow> element option" where
  "scan_elements idx selector [] = None"
| "scan_elements idx selector (el # rest) =
     (if editable_check_throws el then scan_elements idx selector rest
      else if isEditable el then
        (if hint_read_throws el then scan_elements idx selector rest
         else if hasKeyword (elementText el) then Some el
         else if idx < 10 then Some el
         else if isFallbackSelector selector then Some el
         else scan_elements idx selector rest)
      else scan_elements idx selector rest)"

text \<open>The outer loop over the selectors from index \<open>idx\<close> on; a throwing query is skipped.\<close>

fun scan_selectors :: "page \<Rightarrow> nat \<Rightarrow> string list \<Rightarrow> element option" where
  "scan_selectors pg idx [] = None"
| "scan_selectors pg idx (selector # rest) =
     (case pg selector of
        None \<Rightarrow> scan_selectors pg (idx + 1) rest
      | Some elements \<Rightarrow>
          (case scan_elements idx selector elements of
             Some el \<Rightarrow> Some el
           | None \<Rightarrow> scan_selectors pg (idx + 1) rest))"

definition findMessageInput :: "page \<Rightarrow> element option" where
  "findMessageInput pg = scan_selectors pg 0 messageInputSelectors"

text \<open>
  The order in which the scan meets the elements: selector by selector, each with its
  index, and within a selector in document order.
\<close>

fun scan_from :: "page \<Rightarrow> nat \<Rightarrow> string list \<Rightarrow> (nat \<times> string \<times> element) list" where
  "scan_from pg idx [] = []"
| "scan_from pg idx (selector # rest) =
     (case pg selector of
        None \<Rightarrow> scan_from pg (idx + 1) rest
      | Some elements \<Rightarrow> map (\<lambda>el. (idx, selector, el)) elements @ scan_from pg (idx + 1) rest)"

definition scan_order :: "page \<Rightarrow> (nat \<times> string \<times> element) list" where
  "scan_order pg = scan_from pg 0 messageInputSelectors"

text \<open>An element that is genuinely interactive and whose two reads succeed.\<close>

definition interactive :: "element \<Rightarrow> bool" where
  "interactive el = (\<not> editable_check_throws el \<and> isEditable el \<and> \<not> hint_read_throws el)"

text \<open>The acceptance policy for an element met under selector number \<open>idx\<close>.\<close>

definition accepted :: "nat \<times> string \<times> element \<Rightarrow> bool" where
  "accepted x =
     (case x of (idx, selector, el) \<Rightarrow>
        interactive el \<and> (hasKeyword (elementText el) \<or> idx < 10 \<or> isFallbackSelector selector))"

section \<open>Starting and stopping a task\<close>

text \<open>
  A session works on the very object that the registry holds under the task's key
  (\<^verbatim>\<open>startAutomationTask\<close> passes the same reference to \<^verbatim>\<open>addTask\<close> and to
  \<^verbatim>\<open>sendMessages\<close>, and \<^verbatim>\<open>getTask\<close> returns it), so a direct write to a field of
  that object is a write to the registry's entry, without a save.
\<close>

definition mutate :: "string \<Rightarrow> (PersistentAutomationState \<Rightarrow> PersistentAutomationState) \<Rightarrow> world \<Rightarrow> world" where
  "mutate tid f w =
     (case Map_get (tasks w) tid of
        None \<Rightarrow> w
      | Some obj \<Rightarrow> w\<lparr>tasks := Map_set tid (f obj) (tasks w)\<rparr>)"

text \<open>
  \<^verbatim>\<open>startAutomationTask\<close>. \<open>tid\<close> is what \<^verbatim>\<open>generateTaskId()\<close> returned, \<open>created\<close> the
  constructor's \<^verbatim>\<open>new Date()\<close>, \<open>started\<close> the value of \<^verbatim>\<open>Date.now()\<close>. The session
  that it launches is described by the functions of the next section.
\<close>

definition startAutomationTask ::
  "string \<Rightarrow> int \<Rightarrow> int \<Rightarrow> bool \<Rightarrow> config \<Rightarrow> world \<Rightarrow> error + (string \<times> world)" where
  "startAutomationTask tid created started ok cfg w =
     (let automationState = (new_PersistentAutomationState created tid)
            \<lparr>running := True, startTime := Some started, config := Some cfg, processId := Some tid\<rparr>
      in case addTask ok tid automationState w of
           Inl e \<Rightarrow> Inl e
         | Inr w' \<Rightarrow> Inr (tid, w'))"

text \<open>
  \<^verbatim>\<open>stopAutomationTask\<close>: the clock and the disk are read once by \<^verbatim>\<open>getTask\<close> and once
  by \<^verbatim>\<open>updateTask\<close>.
\<close>

definition stopAutomationTask ::
  "int \<Rightarrow> bool \<Rightarrow> int \<Rightarrow> bool \<Rightarrow> string \<Rightarrow> world \<Rightarrow> error + (bool \<times> world)" where
  "stopAutomationTask now1 ok1 now2 ok2 tid w =
     (case getTask now1 ok1 tid w of
        Inl e \<Rightarrow> Inl e
      | Inr (None, w1) \<Rightarrow> Inr (False, w1)
      | Inr (Some task, w1) \<Rightarrow>
          (case updateTask now2 ok2 tid \<lparr>u_running = Some False, u_messageCount = None\<rparr>
                  (mutate tid (\<lambda>obj. obj\<lparr>running := False\<rparr>) w1) of
             Inl e \<Rightarrow> Inl e
           | Inr w2 \<Rightarrow> Inr (True, w2)))"

section \<open>Routes\<close>

datatype response =
    StatusJson string string
  | StoppedJson string
  | NotFoundJson
  | StatusPage
  | NotFoundPage

text \<open>
  A handler either sends a response or throws; the world it leaves is returned in both
  cases.
\<close>

text \<open>\<^verbatim>\<open>GET /api/get_status/:taskId\<close>.\<close>

definition get_status :: "int \<Rightarrow> bool \<Rightarrow> string \<Rightarrow> world \<Rightarrow> (error + response) \<times> world" where
  "get_status now ok tid w =
     (case getTask now ok tid w of
        Inl e \<Rightarrow> (Inl e, w)
      | Inr (None, w') \<Rightarrow> (Inr NotFoundJson, w')
      | Inr (Some task, w') \<Rightarrow>
          (Inr (StatusJson (if running task then ''running'' else ''stopped'') (taskId task)), w'))"

text \<open>
  The search of \<^verbatim>\<open>GET /status/:taskId\<close> through \<^verbatim>\<open>getAllTasks()\<close>: the first task, in
  the order of the map, whose key equals the requested one after \<^verbatim>\<open>toUpperCase\<close>.
\<close>

definition find_ignoring_case :: "string \<Rightarrow> registry \<Rightarrow> PersistentAutomationState option" where
  "find_ignoring_case tid allTasks =
     map_option snd (List.find (\<lambda>(k, t). toUpperCase k = toUpperCase tid) allTasks)"

text \<open>
  \<^verbatim>\<open>GET /status/:taskId\<close>. \<^verbatim>\<open>task\<close> is declared \<^verbatim>\<open>const\<close>, so the assignment
  \<^verbatim>\<open>task = foundTask\<close> throws a \<^verbatim>\<open>TypeError\<close> when it is reached.
\<close>

definition status_page :: "int \<Rightarrow> bool \<Rightarrow> string \<Rightarrow> world \<Rightarrow> (error + response) \<times> world" where
  "status_page now ok tid w =
     (case getTask now ok tid w of
        Inl e \<Rightarrow> (Inl e, w)
      | Inr (Some task, w') \<Rightarrow> (Inr StatusPage, w')
      | Inr (None, w') \<Rightarrow>
          (case getAllTasks w' of
             Inl e \<Rightarrow> (Inl e, w')
           | Inr allTasks \<Rightarrow>
               (case find_ignoring_case tid allTasks of
                  None \<Rightarrow> (Inr NotFoundPage, w')
                | Some foundTask \<Rightarrow> (Inl TypeError, w'))))"

text \<open>\<^verbatim>\<open>POST /api/stop_automation/:taskId\<close>.\<close>

definition stop_automation ::
  "int \<Rightarrow> bool \<Rightarrow> int \<Rightarrow> bool \<Rightarrow> string \<Rightarrow> world \<Rightarrow> (error + response) \<times> world" where
  "stop_automation now1 ok1 now2 ok2 tid w =
     (case stopAutomationTask now1 ok1 now2 ok2 tid w of
        Inl e \<Rightarrow> (Inl e, w)
      | Inr (True, w') \<Rightarrow> (Inr (StoppedJson tid), w')
      | Inr (False, w') \<Rightarrow> (Inr NotFoundJson, w'))"

section \<open>The session\<close>

text \<open>
  \<^verbatim>\<open>config.messages.split('\n').map(msg => msg.trim()).filter(msg => msg)\<close>, with
  \<^verbatim>\<open>'Hello!'\<close> pushed when nothing is left.
\<close>

definition messagesList :: "config \<Rightarrow> string list" where
  "messagesList cfg =
     (let l = filter (\<lambda>msg. msg \<noteq> []) (map trim (split_lines (messages cfg)))
      in if l = [] then [''Hello!''] else l)"

definition messageToSend :: "config \<Rightarrow> string \<Rightarrow> string" where
  "messageToSend cfg baseMessage =
     (if namePrefix cfg \<noteq> [] then namePrefix cfg @ '' '' @ baseMessage else baseMessage)"

text \<open>
  One pass through the body of \<^verbatim>\<open>while (automationStateObj.running)\<close>, for the task
  stored under \<open>tid\<close>. \<open>send_ok\<close> tells whether the browser steps of the \<^verbatim>\<open>try\<close> block
  (select, clear, type, click or Enter) all succeed; \<open>now\<close> and \<open>ok\<close> are the clock and
  the disk at \<^verbatim>\<open>updateTask\<close>; \<open>messagesSent\<close> is the local counter. The result is the
  composed message, the local counter, and the world. The timers do not throw. The
  entry is always there (no caller ever removes a task); the model leaves the world as
  it is otherwise.
\<close>

definition loop_body ::
  "config \<Rightarrow> string list \<Rightarrow> string \<Rightarrow> bool \<Rightarrow> int \<Rightarrow> bool \<Rightarrow> nat \<Rightarrow> world \<Rightarrow> string \<times> nat \<times> world" where
  "loop_body cfg msgs tid send_ok now ok messagesSent w =
     (case Map_get (tasks w) tid of
        None \<Rightarrow> ([], messagesSent, w)
      | Some obj \<Rightarrow>
          (case getNextMessage msgs (Some obj) of
             (baseMessage, obj') \<Rightarrow>
               (let w1 = w\<lparr>tasks := Map_set tid (case obj' of Some st \<Rightarrow> st | None \<Rightarrow> obj) (tasks w)\<rparr>;
                    m = messageToSend cfg baseMessage
                in if send_ok then
                     (let n = messagesSent + 1;
                          w2 = mutate tid (\<lambda>st. st\<lparr>messageCount := n\<rparr>) w1
                      in case updateTask now ok tid \<lparr>u_running = None, u_messageCount = Some n\<rparr> w2 of
                           Inl e \<Rightarrow> (m, n, w2)
                         | Inr w3 \<Rightarrow> (m, n, w3))
                   else (m, messagesSent, w1))))"

definition is_running :: "string \<Rightarrow> world \<Rightarrow> bool" where
  "is_running tid w = (case Map_get (tasks w) tid of None \<Rightarrow> False | Some obj \<Rightarrow> running obj)"

text \<open>
  What happens while the loop runs: an attempt to send, or, while the session is
  suspended in a wait, a request served by a route.
\<close>

datatype request =
    PollReq string int bool
  | PageReq string int bool
  | StopReq string int bool int bool

fun serve :: "request \<Rightarrow> world \<Rightarrow> (error + response) \<times> world" where
  "serve (PollReq tid now ok) w = get_status now ok tid w"
| "serve (PageReq tid now ok) w = status_page now ok tid w"
| "serve (StopReq tid now1 ok1 now2 ok2) w = stop_automation now1 ok1 now2 ok2 tid w"

datatype step = Attempt bool int bool | Request request

text \<open>
  The loop, run over a finite script of steps. \<open>Exited\<close>: the flag was found false and
  the loop was left. \<open>Suspended\<close>: the script ended with the loop still going. Both
  carry the local counter, the world, and the composed messages of the attempts made,
  each with whether it was sent.
\<close>

datatype loop_result =
    Exited nat world "(string \<times> bool) list"
  | Suspended nat world "(string \<times> bool) list"

fun sending_loop ::
  "config \<Rightarrow> string list \<Rightarrow> string \<Rightarrow> step list \<Rightarrow> nat \<Rightarrow> world \<Rightarrow> (string \<times> bool) list \<Rightarrow> loop_result" where
  "sending_loop cfg msgs tid [] messagesSent w log =
     (if is_running tid w then Suspended messagesSent w log else Exited messagesSent w log)"
| "sending_loop cfg msgs tid (Request r # rest) messagesSent w log =
     sending_loop cfg msgs tid rest messagesSent (snd (serve r w)) log"
| "sending_loop cfg msgs tid (Attempt send_ok now ok # rest) messagesSent w log =
     (if is_running tid w then
        (case loop_body cfg msgs tid send_ok now ok messagesSent w of
           (m, n, w') \<Rightarrow> sending_loop cfg msgs tid rest n w' (log @ [(m, send_ok)]))
      else Exited messagesSent w log)"

text \<open>The \<^verbatim>\<open>updateTask(.., { running: false })\<close> of the not-found branch and of the outer \<^verbatim>\<open>catch\<close>.\<close>

definition mark_stopped :: "int \<Rightarrow> bool \<Rightarrow> string \<Rightarrow> world \<Rightarrow> world" where
  "mark_stopped now ok tid w =
     (case updateTask now ok tid \<lparr>u_running = Some False, u_messageCount = None\<rparr> w of
        Inl e \<Rightarrow> w | Inr w' \<Rightarrow> w')"

text \<open>The \<^verbatim>\<open>finally\<close> block: the flag cleared, the count as the object holds it.\<close>

definition finally_block :: "int \<Rightarrow> bool \<Rightarrow> string \<Rightarrow> world \<Rightarrow> world" where
  "finally_block now ok tid w =
     (case Map_get (tasks w) tid of
        None \<Rightarrow> w
      | Some obj \<Rightarrow>
          (case updateTask now ok tid \<lparr>u_running = Some False, u_messageCount = Some (messageCount obj)\<rparr> w of
             Inl e \<Rightarrow> w | Inr w' \<Rightarrow> w'))"

text \<open>
  \<open>SetupThrows\<close>: launching the browser, opening the page, setting the cookies or
  navigating throws. \<open>Opened pg\<close>: the conversation is open and shows document \<open>pg\<close>.
\<close>

datatype setup_outcome = SetupThrows | Opened page

text \<open>
  \<^verbatim>\<open>sendMessages\<close>. \<open>now1\<close>, \<open>ok1\<close> serve the early \<^verbatim>\<open>updateTask\<close>, \<open>now2\<close>, \<open>ok2\<close> the
  one of \<^verbatim>\<open>finally\<close>. The result is the returned count, or \<open>None\<close> while the loop is
  still going at the end of the script, and the world.
\<close>

definition sendMessages ::
  "config \<Rightarrow> string \<Rightarrow> setup_outcome \<Rightarrow> int \<Rightarrow> bool \<Rightarrow> int \<Rightarrow> bool \<Rightarrow> step list \<Rightarrow> world \<Rightarrow> nat option \<times> world" where
  "sendMessages cfg tid su now1 ok1 now2 ok2 steps w =
     (case su of
        SetupThrows \<Rightarrow> (Some 0, finally_block now2 ok2 tid (mark_stopped now1 ok1 tid w))
      | Opened pg \<Rightarrow>
          (case findMessageInput pg of
             None \<Rightarrow> (Some 0, finally_block now2 ok2 tid (mark_stopped now1 ok1 tid w))
           | Some messageInput \<Rightarrow>
               (case sending_loop cfg (messagesList cfg) tid steps 0 w [] of
                  Suspended n w' log \<Rightarrow> (None, w')
                | Exited n w' log \<Rightarrow> (Some n, finally_block now2 ok2 tid w'))))"

section \<open>The whole system as events\<close>

text \<open>
  Every piece of code that writes to a task, as an event on the world: a start, the
  three requests, for the session of a task its loop body, its early \<^verbatim>\<open>updateTask\<close>
  and its \<^verbatim>\<open>finally\<close>, and the two ways in which \<^verbatim>\<open>loadTasks\<close> runs. \<open>EvLoad\<close> is
  the loop of \<^verbatim>\<open>loadTasks\<close> running on the map as it is (the constructor does not
  await it, so it may complete after requests were served); \<open>EvRestart\<close> is a new
  process: \<^verbatim>\<open>new TaskManager()\<close> on the file as the old process left it. A run is any
  sequence of events, so every interleaving of sessions and requests is a run; the loop
  body may come at any time, which covers a stop that arrives between the loop's test
  and the body's writes.
\<close>

datatype event =
    EvStart string int int bool config
  | EvRequest request
  | EvLoopBody config string bool int bool nat
  | EvMarkStopped string int bool
  | EvFinally string int bool
  | EvLoad int
  | EvRestart int

fun apply_event :: "event \<Rightarrow> world \<Rightarrow> world" where
  "apply_event (EvStart tid created started ok cfg) w =
     (case startAutomationTask tid created started ok cfg w of Inl e \<Rightarrow> w | Inr (t, w') \<Rightarrow> w')"
| "apply_event (EvRequest r) w = snd (serve r w)"
| "apply_event (EvLoopBody cfg tid send_ok now ok n) w =
     snd (snd (loop_body cfg (messagesList cfg) tid send_ok now ok n w))"
| "apply_event (EvMarkStopped tid now ok) w = mark_stopped now ok tid w"
| "apply_event (EvFinally tid now ok) w = finally_block now ok tid w"
| "apply_event (EvLoad currentTime) w =
     (case loadTasks currentTime w of Inl e \<Rightarrow> w | Inr w' \<Rightarrow> w')"
| "apply_event (EvRestart currentTime) w =
     (case new_TaskManager currentTime (tasksFile w) of Inl e \<Rightarrow> w | Inr w' \<Rightarrow> w')"

fun run :: "event list \<Rightarrow> world \<Rightarrow> world" where
  "run [] w = w"
| "run (e # es) w = run es (apply_event e w)"

text \<open>
  A run that stays within one process whose registry has been loaded, and in which
  every start draws an identifier that the registry does not hold yet: no \<open>EvLoad\<close>,
  no \<open>EvRestart\<close>, and the key of each \<open>EvStart\<close> is unbound when it comes.
\<close>

fun within_lifetime :: "event list \<Rightarrow> world \<Rightarrow> bool" where
  "within_lifetime [] w = True"
| "within_lifetime (e # es) w =
     ((case e of
         EvStart tid created started ok cfg \<Rightarrow> Map_get (tasks w) tid = None
       | EvLoad currentTime \<Rightarrow> False
       | EvRestart currentTime \<Rightarrow> False
       | _ \<Rightarrow> True)
      \<and> within_lifetime es (apply_event e w))"

text \<open>The parts of a loop result.\<close>

fun loop_log :: "loop_result \<Rightarrow> (string \<times> bool) list" where
  "loop_log (Exited n w l) = l"
| "loop_log (Suspended n w l) = l"

fun loop_world :: "loop_result \<Rightarrow> world" where
  "loop_world (Exited n w l) = w"
| "loop_world (Suspended n w l) = w"

section \<open>Example inputs\<close>

text \<open>
  A document in which the third pattern matches a \<^verbatim>\<open>div\<close> that is not editable, the
  query for \<^verbatim>\<open>[contenteditable="true"]\<close> throws, and \<^verbatim>\<open>textarea\<close> matches one text
  area whose placeholder holds no keyword and whose click throws.
\<close>

definition demo_textarea :: element where
  "demo_textarea =
     \<lparr> contentEditable = ''inherit'', tagName = ''TEXTAREA'', placeholder = Some ''Search'',
       aria_label = None, aria_placeholder = None, editable_check_throws = False,
       click_throws = True, hint_read_throws = False \<rparr>"

definition demo_div :: element where
  "demo_div =
     \<lparr> contentEditable = ''false'', tagName = ''DIV'', placeholder = None,
       aria_label = Some ''Message'', aria_placeholder = None, editable_check_throws = False,
       click_throws = False, hint_read_throws = False \<rparr>"

definition demo_page :: page where
  \<open>demo_page =
     (\<lambda>selector.
        if selector = ''textarea'' then Some [demo_textarea]
        else if selector = ''div[aria-label*="message" i][contenteditable="true"]'' then Some [demo_div]
        else if selector = ''[contenteditable="true"]'' then None
        else Some [])\<close>

text \<open>A configuration with the two templates \<^verbatim>\<open>Hi\<close> and \<^verbatim>\<open>Bye\<close> and no prefix.\<close>

definition demo_config :: config where
  "demo_config =
     \<lparr> chatId = ''42'', namePrefix = [], delay = 1, cookies = [],
       messages = [CHR ''H'', CHR ''i'', CHR 0x0A, CHR ''B'', CHR ''y'', CHR ''e''] \<rparr>"

text \<open>The task that \<^verbatim>\<open>startAutomationTask\<close> stores for that configuration at time 5.\<close>

definition demo_task :: PersistentAutomationState where
  "demo_task =
     (new_PersistentAutomationState 5 ''RAGHAV-E2E-AB12'')
       \<lparr>running := True, startTime := Some 5, config := Some demo_config,
        processId := Some ''RAGHAV-E2E-AB12''\<rparr>"

definition demo_world :: world where
  "demo_world = \<lparr> tasks = [(''RAGHAV-E2E-AB12'', demo_task)], tasksFile = Unreadable \<rparr>"

text \<open>A process that has just come up with no file to load.\<close>

definition empty_world :: world where
  "empty_world = \<lparr> tasks = [], tasksFile = Unreadable \<rparr>"

text \<open>The same registry after the task was stopped.\<close>

definition demo_stopped_world :: world where
  "demo_stopped_world =
     \<lparr> tasks = [(''RAGHAV-E2E-AB12'', demo_task\<lparr>running := False\<rparr>)], tasksFile = Unreadable \<rparr>"

section \<open>Rotation: the wrap-around law\<close>

lemma next_calls_state:
  "msgs \<noteq> [] \<Longrightarrow>
   snd (next_calls k msgs st) = st\<lparr>messageRotationIndex := messageRotationIndex st + k\<rparr>"
  by (induction k arbitrary: st) (simp_all add: getNextMessage_def case_prod_beta)

lemma next_calls_messages:
  "msgs \<noteq> [] \<Longrightarrow>
   fst (next_calls k msgs st) =
     map (\<lambda>i. msgs ! ((messageRotationIndex st + i) mod length msgs)) [0..<k]"
proof (induction k arbitrary: st)
  case 0
  show ?case by simp
next
  case (Suc k)
  have shift: "map (\<lambda>i. msgs ! ((messageRotationIndex st + i) mod length msgs)) [0..<Suc k] =
      msgs ! (messageRotationIndex st mod length msgs) #
      map (\<lambda>i. msgs ! ((messageRotationIndex st + 1 + i) mod length msgs)) [0..<k]"
    by (simp add: upt_conv_Cons map_Suc_upt [symmetric] del: upt_Suc)
  show ?case
    using Suc.prems Suc.IH [of "st\<lparr>messageRotationIndex := messageRotationIndex st + 1\<rparr>"]
    by (simp add: getNextMessage_def shift case_prod_beta del: upt_Suc)
qed

text \<open>
  C2. For a non-empty template list \<open>T\<close> and a task whose cursor is \<open>c\<close>, one call of
  \<^verbatim>\<open>getNextMessage\<close> returns \<open>T[c mod |T|]\<close> and leaves the cursor at \<open>c + 1\<close>, and \<open>k\<close>
  successive calls return \<open>T[c mod |T|], T[(c+1) mod |T|], ..., T[(c+k-1) mod |T|]\<close>
  and leave the cursor at \<open>c + k\<close>, for every \<open>k\<close>, also beyond \<open>|T|\<close>; no other field
  of the task changes.
\<close>

theorem getNextMessage_rotation:
  assumes "T \<noteq> []"
  shows "getNextMessage T (Some st) =
           (T ! (messageRotationIndex st mod length T),
            Some (st\<lparr>messageRotationIndex := messageRotationIndex st + 1\<rparr>))
       \<and> fst (next_calls k T st) =
           map (\<lambda>i. T ! ((messageRotationIndex st + i) mod length T)) [0..<k]
       \<and> snd (next_calls k T st) = st\<lparr>messageRotationIndex := messageRotationIndex st + k\<rparr>"
  using assms
  by (simp add: getNextMessage_def next_calls_messages next_calls_state)

theorem getNextMessage_rotation_witness:
  "fst (next_calls 5 [''Hi'', ''Bye'']
         ((new_PersistentAutomationState 0 ''T1'')\<lparr>messageRotationIndex := 1\<rparr>))
     = [''Bye'', ''Hi'', ''Bye'', ''Hi'', ''Bye'']
   \<and> messageRotationIndex (snd (next_calls 5 [''Hi'', ''Bye'']
         ((new_PersistentAutomationState 0 ''T1'')\<lparr>messageRotationIndex := 1\<rparr>))) = 6"
proof -
  have ne: "[''Hi'', ''Bye''] \<noteq> ([] :: string list)" by simp
  have five: "[0..<5] = [0, 1, 2, 3, 4 :: nat]" by (simp add: upt_rec)
  show ?thesis
    using getNextMessage_rotation [OF ne, of "(new_PersistentAutomationState 0 ''T1'')\<lparr>messageRotationIndex := 1\<rparr>" 5]
    by (simp add: five new_PersistentAutomationState_def numeral_2_eq_2 [symmetric])
qed

section \<open>Registry: loading, saving, reading\<close>

lemma map_of_load_entries:
  "distinct (map fst kvs) \<Longrightarrow>
   map_of (load_entries now kvs m) tid =
     (case map_of kvs tid of
        None \<Rightarrow> map_of m tid
      | Some d \<Rightarrow>
          (case d_lastUpdated d of
             None \<Rightarrow> map_of m tid
           | Some t \<Rightarrow> if now - t < 86400000 then Some (assign_taskData d t) else map_of m tid))"
proof (induction kvs arbitrary: m)
  case Nil
  show ?case by simp
next
  case (Cons p kvs)
  obtain k d where p: "p = (k, d)" by (cases p)
  from Cons.prems p have notin: "map_of kvs k = None" and dist: "distinct (map fst kvs)"
    by (auto simp: map_of_eq_None_iff)
  show ?case
  proof (cases "tid = k")
    case True
    have IH': "map_of (load_entries now kvs m') k = map_of m' k" for m'
      using Cons.IH [OF dist, of m'] notin True by simp
    show ?thesis
      by (simp add: p True IH' Map_set_def update_conv' split: option.splits)
  next
    case False
    then show ?thesis
      by (simp add: p Cons.IH [OF dist] Map_set_def update_conv' split: option.splits)
  qed
qed





text \<open>
  C3. Let the durable file hold an object of records (each key once), loaded into a
  fresh manager at time \<open>now\<close>. A record stored under \<open>tid\<close> is in the registry after
  the load, rebuilt field by field, exactly when its \<^verbatim>\<open>lastUpdated\<close> is a valid date
  strictly newer than \<open>now\<close> minus 24 hours; otherwise \<open>tid\<close> is absent. A record aged
  exactly 24 hours is therefore discarded.
\<close>

theorem loadTasks_staleness:
  assumes "distinct (map fst kvs)" and "(tid, d) \<in> set kvs"
  shows "\<exists>w. new_TaskManager now (Text (JsonObject kvs)) = Inr w \<and>
             Map_get (tasks w) tid =
               (case d_lastUpdated d of
                  None \<Rightarrow> None
                | Some t \<Rightarrow> if now - 24 * 60 * 60 * 1000 < t then Some (assign_taskData d t) else None)"
proof -
  from assms have "map_of kvs tid = Some d" by simp
  then show ?thesis
    using assms(1)
    by (auto simp: new_TaskManager_def loadTasks_def loadTasks_try_def fs_readFile_def
        JSON_parse_def Map_get_def map_of_load_entries split: option.splits)
qed

theorem loadTasks_staleness_witness:
  "\<exists>w. new_TaskManager 100000000
          (Text (JsonObject
            [(''A'', toJSON ((new_PersistentAutomationState 13600001 ''A''))),
             (''B'', toJSON ((new_PersistentAutomationState 13600000 ''B''))),
             (''C'', (toJSON (new_PersistentAutomationState 0 ''C''))\<lparr>d_lastUpdated := None\<rparr>)])) = Inr w
      \<and> Map_get (tasks w) ''A'' = Some (new_PersistentAutomationState 13600001 ''A'')
      \<and> Map_get (tasks w) ''B'' = None"
proof -
  let ?kvs = "[(''A'', toJSON ((new_PersistentAutomationState 13600001 ''A''))),
             (''B'', toJSON ((new_PersistentAutomationState 13600000 ''B''))),
             (''C'', (toJSON (new_PersistentAutomationState 0 ''C''))\<lparr>d_lastUpdated := None\<rparr>)]"
  have dist: "distinct (map fst ?kvs)" by simp
  have inA: "(''A'', toJSON ((new_PersistentAutomationState 13600001 ''A''))) \<in> set ?kvs" by simp
  have inB: "(''B'', toJSON ((new_PersistentAutomationState 13600000 ''B''))) \<in> set ?kvs" by simp
  from loadTasks_staleness [OF dist inA, of 100000000] loadTasks_staleness [OF dist inB, of 100000000]
  show ?thesis
    by (auto simp: toJSON_def assign_taskData_def new_PersistentAutomationState_def)
qed



lemma saveTasks_result:
  "saveTasks ok w = Inr (if ok then w\<lparr>tasksFile := Text (JSON_stringify (tasks w))\<rparr> else w)"
  by (simp add: saveTasks_def saveTasks_try_def fs_writeFile_def)

lemma Map_get_set: "Map_get (Map_set k v m) k' = (if k' = k then Some v else Map_get m k')"
  by (simp add: Map_get_def Map_set_def update_conv')

lemma Map_set_keys: "Map_get m k = Some v \<Longrightarrow> map fst (Map_set k v' m) = map fst m"
  by (auto simp: Map_get_def Map_set_def update_keys dest: map_of_SomeD intro: rev_image_eqI)

lemma Map_get_delete: "Map_get (Map_delete k m) k' = (if k' = k then None else Map_get m k')"
  by (simp add: Map_get_def Map_delete_def delete_conv')

lemma getTask_None:
  "Map_get (tasks w) tid = None \<Longrightarrow> getTask now ok tid w = Inr (None, w)"
  by (simp add: getTask_def)

lemma getTask_Some:
  "Map_get (tasks w) tid = Some task \<Longrightarrow>
   getTask now ok tid w =
     Inr (Some (task\<lparr>lastUpdated := now\<rparr>),
          if ok then w\<lparr>tasks := Map_set tid (task\<lparr>lastUpdated := now\<rparr>) (tasks w),
                       tasksFile := Text (JSON_stringify (Map_set tid (task\<lparr>lastUpdated := now\<rparr>) (tasks w)))\<rparr>
          else w\<lparr>tasks := Map_set tid (task\<lparr>lastUpdated := now\<rparr>) (tasks w)\<rparr>)"
  by (simp add: getTask_def saveTasks_result Let_def)

lemma updateTask_None:
  "Map_get (tasks w) tid = None \<Longrightarrow> updateTask now ok tid u w = Inr w"
  by (simp add: updateTask_def)

lemma updateTask_Some:
  "Map_get (tasks w) tid = Some task \<Longrightarrow>
   updateTask now ok tid u w =
     Inr (if ok then w\<lparr>tasks := Map_set tid ((Object_assign task u)\<lparr>lastUpdated := now\<rparr>) (tasks w),
                       tasksFile := Text (JSON_stringify (Map_set tid ((Object_assign task u)\<lparr>lastUpdated := now\<rparr>) (tasks w)))\<rparr>
          else w\<lparr>tasks := Map_set tid ((Object_assign task u)\<lparr>lastUpdated := now\<rparr>) (tasks w)\<rparr>)"
  by (simp add: updateTask_def saveTasks_result)

text \<open>
  C8. No operation of the registry raises: \<^verbatim>\<open>loadTasks\<close>, \<^verbatim>\<open>saveTasks\<close>, \<^verbatim>\<open>addTask\<close>,
  \<^verbatim>\<open>getTask\<close>, \<^verbatim>\<open>updateTask\<close>, \<^verbatim>\<open>removeTask\<close> and \<^verbatim>\<open>getAllTasks\<close> return normally
  whatever the state of the file and whether or not the disk accepts the write. A
  failed write leaves the world as it was; an unreadable or corrupt file gives a
  manager with zero tasks; and with every write failing, a task that was added is still
  returned by the next \<^verbatim>\<open>getTask\<close> from the in-memory map.
\<close>

theorem registry_never_raises:
  "(\<exists>w'. loadTasks now w = Inr w')
   \<and> (\<exists>w'. saveTasks ok w = Inr w' \<and> tasks w' = tasks w)
   \<and> (\<exists>w'. addTask ok tid st w = Inr w' \<and> Map_get (tasks w') tid = Some st)
   \<and> (\<exists>r w'. getTask now ok tid w = Inr (r, w') \<and> r = Map_get (tasks w') tid)
   \<and> (\<exists>w'. updateTask now ok tid u w = Inr w')
   \<and> (\<exists>w'. removeTask ok tid w = Inr w' \<and> Map_get (tasks w') tid = None)
   \<and> getAllTasks w = Inr (tasks w)
   \<and> saveTasks False w = Inr w
   \<and> new_TaskManager now Unreadable = Inr \<lparr> tasks = [], tasksFile = Unreadable \<rparr>
   \<and> new_TaskManager now (Text Garbage) = Inr \<lparr> tasks = [], tasksFile = Text Garbage \<rparr>
   \<and> (\<exists>w1 w2. addTask False tid st w = Inr w1 \<and>
         getTask now False tid w1 = Inr (Some (st\<lparr>lastUpdated := now\<rparr>), w2) \<and>
         tasksFile w2 = tasksFile w)"
proof -
  have l: "\<exists>w'. loadTasks now w = Inr w'"
    by (simp add: loadTasks_def split: sum.splits)
  have s: "\<exists>w'. saveTasks ok w = Inr w' \<and> tasks w' = tasks w"
    by (simp add: saveTasks_result)
  have a: "\<exists>w'. addTask ok tid st w = Inr w' \<and> Map_get (tasks w') tid = Some st"
    by (simp add: addTask_def saveTasks_result Map_get_set)
  have g: "\<exists>r w'. getTask now ok tid w = Inr (r, w') \<and> r = Map_get (tasks w') tid"
    by (cases "Map_get (tasks w) tid") (simp_all add: getTask_None getTask_Some Map_get_set)
  have u: "\<exists>w'. updateTask now ok tid u w = Inr w'"
    by (simp add: updateTask_def saveTasks_result split: option.splits)
  have r: "\<exists>w'. removeTask ok tid w = Inr w' \<and> Map_get (tasks w') tid = None"
    by (simp add: removeTask_def saveTasks_result Map_get_delete)
  have n1: "new_TaskManager now Unreadable = Inr \<lparr> tasks = [], tasksFile = Unreadable \<rparr>"
    by (simp add: new_TaskManager_def loadTasks_def loadTasks_try_def fs_readFile_def)
  have n2: "new_TaskManager now (Text Garbage) = Inr \<lparr> tasks = [], tasksFile = Text Garbage \<rparr>"
    by (simp add: new_TaskManager_def loadTasks_def loadTasks_try_def fs_readFile_def JSON_parse_def)
  have m: "\<exists>w1 w2. addTask False tid st w = Inr w1 \<and>
         getTask now False tid w1 = Inr (Some (st\<lparr>lastUpdated := now\<rparr>), w2) \<and>
         tasksFile w2 = tasksFile w"
    by (simp add: addTask_def getTask_Some [of _ _ st] saveTasks_result Map_get_set)
  from l s a g u r n1 n2 m show ?thesis
    by (simp add: getAllTasks_def saveTasks_result)
qed

text \<open>
  C9. For a task stored under \<open>tid\<close>, \<^verbatim>\<open>getTask\<close> returns that task with
  \<^verbatim>\<open>lastUpdated\<close> set to the time of the call, every other field as it was; the
  registry afterwards binds \<open>tid\<close> to it, binds every other key as before and has the
  same keys in the same order; and the file then holds the new registry when the disk
  accepts the write (it is left as it was when the write fails). For a key that is not
  stored, \<^verbatim>\<open>getTask\<close> returns nothing and changes neither the registry nor the file.
\<close>

theorem getTask_frame:
  "(Map_get (tasks w) tid = None \<longrightarrow> getTask now ok tid w = Inr (None, w))
   \<and> (\<forall>task. Map_get (tasks w) tid = Some task \<longrightarrow>
        (\<exists>w'. getTask now ok tid w = Inr (Some (task\<lparr>lastUpdated := now\<rparr>), w')
           \<and> Map_get (tasks w') tid = Some (task\<lparr>lastUpdated := now\<rparr>)
           \<and> (\<forall>k. k \<noteq> tid \<longrightarrow> Map_get (tasks w') k = Map_get (tasks w) k)
           \<and> map fst (tasks w') = map fst (tasks w)
           \<and> tasksFile w' = (if ok then Text (JSON_stringify (tasks w')) else tasksFile w)))"
  by (auto simp: getTask_None getTask_Some Map_get_set Map_set_keys)

theorem getTask_frame_witness:
  "getTask 2000 True ''T9''
     \<lparr> tasks = [(''T1'', new_PersistentAutomationState 500 ''T1''),
                (''T2'', new_PersistentAutomationState 900 ''T2'')],
       tasksFile = Unreadable \<rparr>
     = Inr (None, \<lparr> tasks = [(''T1'', new_PersistentAutomationState 500 ''T1''),
                (''T2'', new_PersistentAutomationState 900 ''T2'')],
       tasksFile = Unreadable \<rparr>)
   \<and> (\<exists>w'. getTask 2000 True ''T2''
        \<lparr> tasks = [(''T1'', new_PersistentAutomationState 500 ''T1''),
                   (''T2'', new_PersistentAutomationState 900 ''T2'')],
          tasksFile = Unreadable \<rparr>
        = Inr (Some (new_PersistentAutomationState 2000 ''T2''), w')
      \<and> Map_get (tasks w') ''T1'' = Some (new_PersistentAutomationState 500 ''T1'')
      \<and> Map_get (tasks w') ''T2'' = Some (new_PersistentAutomationState 2000 ''T2'')
      \<and> map fst (tasks w') = [''T1'', ''T2''])"
proof -
  let ?w = "\<lparr> tasks = [(''T1'', new_PersistentAutomationState 500 ''T1''),
                (''T2'', new_PersistentAutomationState 900 ''T2'')],
       tasksFile = Unreadable \<rparr>"
  have absent: "Map_get (tasks ?w) ''T9'' = None" by (simp add: Map_get_def)
  have present: "Map_get (tasks ?w) ''T2'' = Some (new_PersistentAutomationState 900 ''T2'')"
    by (simp add: Map_get_def)
  have other: "Map_get (tasks ?w) ''T1'' = Some (new_PersistentAutomationState 500 ''T1'')"
    by (simp add: Map_get_def)
  have upd: "(new_PersistentAutomationState 900 ''T2'')\<lparr>lastUpdated := 2000\<rparr>
             = new_PersistentAutomationState 2000 ''T2''"
    by (simp add: new_PersistentAutomationState_def)
  from getTask_frame [of ?w "''T9''" 2000 True] absent
  have a: "getTask 2000 True ''T9'' ?w = Inr (None, ?w)" by blast
  from getTask_frame [of ?w "''T2''" 2000 True] present obtain w' where
    b: "getTask 2000 True ''T2'' ?w
          = Inr (Some ((new_PersistentAutomationState 900 ''T2'')\<lparr>lastUpdated := 2000\<rparr>), w')"
       "Map_get (tasks w') ''T2'' = Some ((new_PersistentAutomationState 900 ''T2'')\<lparr>lastUpdated := 2000\<rparr>)"
       "\<forall>k. k \<noteq> ''T2'' \<longrightarrow> Map_get (tasks w') k = Map_get (tasks ?w) k"
       "map fst (tasks w') = map fst (tasks ?w)"
    by blast
  from b(3) other have c: "Map_get (tasks w') ''T1'' = Some (new_PersistentAutomationState 500 ''T1'')"
    by simp
  from a b(1,2,4) c show ?thesis
    unfolding upd by simp
qed

section \<open>Discovery: the first accepted element in scan order\<close>

lemma find_append_opt:
  "List.find P (xs @ ys) = (case List.find P xs of None \<Rightarrow> List.find P ys | Some x \<Rightarrow> Some x)"
  by (induction xs) auto

lemma find_map_opt:
  "List.find P (map f xs) = map_option f (List.find (\<lambda>x. P (f x)) xs)"
  by (induction xs) auto

lemma scan_elements_find:
  "scan_elements idx selector els = List.find (\<lambda>el. accepted (idx, selector, el)) els"
  by (induction els) (auto simp: accepted_def interactive_def)

lemma scan_selectors_find:
  "scan_selectors pg idx sels =
     map_option (\<lambda>x. snd (snd x)) (List.find accepted (scan_from pg idx sels))"
proof (induction sels arbitrary: idx)
  case Nil
  show ?case by simp
next
  case (Cons selector sels)
  show ?case
  proof (cases "pg selector")
    case None
    then show ?thesis by (simp add: Cons.IH)
  next
    case (Some els)
    then show ?thesis
      by (simp add: Cons.IH scan_elements_find find_append_opt find_map_opt
          option.map_comp comp_def split: option.splits)
  qed
qed

lemma scan_from_sorted: "sorted (map fst (scan_from pg idx sels)) \<and> (\<forall>x \<in> set (scan_from pg idx sels). idx \<le> fst x)"
proof (induction sels arbitrary: idx)
  case Nil
  show ?case by simp
next
  case (Cons selector sels)
  from Cons.IH [of "idx + 1"] show ?case
    by (cases "pg selector") (auto simp: sorted_append comp_def map_replicate_const)
qed

lemma str_includes_iff: "str_includes s k \<longleftrightarrow> (\<exists>p q. s = p @ k @ q)"
proof (induction s)
  case Nil
  show ?case by auto
next
  case (Cons c cs)
  show ?case
  proof
    assume "str_includes (c # cs) k"
    then consider "prefix k (c # cs)" | "str_includes cs k" by auto
    then show "\<exists>p q. c # cs = p @ k @ q"
    proof cases
      case 1
      then obtain q where "c # cs = k @ q" by (auto simp: prefix_def)
      then have "c # cs = [] @ k @ q" by simp
      then show ?thesis by blast
    next
      case 2
      with Cons.IH obtain p q where "cs = p @ k @ q" by blast
      then have "c # cs = (c # p) @ k @ q" by simp
      then show ?thesis by blast
    qed
  next
    assume "\<exists>p q. c # cs = p @ k @ q"
    then obtain p q where pq: "c # cs = p @ k @ q" by blast
    show "str_includes (c # cs) k"
    proof (cases p)
      case Nil
      with pq have "prefix k (c # cs)" by (simp add: prefix_def)
      then show ?thesis by simp
    next
      case (Cons a p')
      with pq have "cs = p' @ k @ q" by simp
      with Cons.IH have "str_includes cs k" by blast
      then show ?thesis by simp
    qed
  qed
qed

text \<open>
  C5. \<^verbatim>\<open>findMessageInput\<close> meets the elements pattern by pattern, first pattern to
  last, and returns the first one that the policy accepts: an interactive element is
  accepted at once when its hint text, in lower case, contains one of the keywords as
  a substring; without a keyword it is accepted when the pattern is among the first
  ten or is one of the three fallback patterns; otherwise the scan goes on. So the
  element returned is preceded, in scan order, by no element that the policy accepts
  (none under an earlier pattern, none with a keyword), and the result is
  \<^verbatim>\<open>null\<close> exactly when the policy accepts no element of the scan.
\<close>

theorem findMessageInput_first_accepted:
  "findMessageInput pg = map_option (\<lambda>x. snd (snd x)) (List.find accepted (scan_order pg))
   \<and> sorted (map fst (scan_order pg))
   \<and> (\<forall>el. findMessageInput pg = Some el \<longrightarrow>
        (\<exists>n < length (scan_order pg). snd (snd (scan_order pg ! n)) = el \<and>
            accepted (scan_order pg ! n) \<and> (\<forall>m < n. \<not> accepted (scan_order pg ! m))))
   \<and> (findMessageInput pg = None \<longleftrightarrow> (\<forall>x \<in> set (scan_order pg). \<not> accepted x))
   \<and> (\<forall>idx selector el rest.
        scan_elements idx selector (el # rest) =
          (if interactive el \<and> hasKeyword (elementText el) then Some el
           else if interactive el \<and> (idx < 10 \<or> isFallbackSelector selector) then Some el
           else scan_elements idx selector rest))
   \<and> (\<forall>text. hasKeyword text \<longleftrightarrow>
        (\<exists>keyword \<in> set keywords_list. \<exists>p q. toLowerCase text = p @ keyword @ q))"
proof -
  have a: "findMessageInput pg = map_option (\<lambda>x. snd (snd x)) (List.find accepted (scan_order pg))"
    by (simp add: findMessageInput_def scan_order_def scan_selectors_find)
  have b: "sorted (map fst (scan_order pg))"
    using scan_from_sorted [of pg 0 messageInputSelectors] by (simp add: scan_order_def)
  have c: "\<exists>n < length (scan_order pg). snd (snd (scan_order pg ! n)) = el \<and>
            accepted (scan_order pg ! n) \<and> (\<forall>m < n. \<not> accepted (scan_order pg ! m))"
    if "findMessageInput pg = Some el" for el
  proof -
    from that a obtain x where x: "List.find accepted (scan_order pg) = Some x" "snd (snd x) = el"
      by auto
    from x(1) obtain i where "i < length (scan_order pg)" "accepted (scan_order pg ! i)"
      "x = scan_order pg ! i" "\<forall>j<i. \<not> accepted (scan_order pg ! j)"
      unfolding find_Some_iff by blast
    with x(2) show ?thesis by blast
  qed
  have d: "findMessageInput pg = None \<longleftrightarrow> (\<forall>x \<in> set (scan_order pg). \<not> accepted x)"
    by (auto simp: a find_None_iff)
  have e: "scan_elements idx selector (el # rest) =
          (if interactive el \<and> hasKeyword (elementText el) then Some el
           else if interactive el \<and> (idx < 10 \<or> isFallbackSelector selector) then Some el
           else scan_elements idx selector rest)" for idx selector el rest
    by (simp add: interactive_def)
  have f: "hasKeyword hint \<longleftrightarrow>
        (\<exists>keyword \<in> set keywords_list. \<exists>p q. toLowerCase hint = p @ keyword @ q)" for hint
    by (simp add: hasKeyword_def list_ex_iff str_includes_iff)
  from a b c d e f show ?thesis by blast
qed

theorem findMessageInput_first_accepted_witness:
  "findMessageInput demo_page = Some demo_textarea
   \<and> \<not> hasKeyword (elementText demo_textarea)
   \<and> (\<exists>n < length (scan_order demo_page). snd (snd (scan_order demo_page ! n)) = demo_textarea \<and>
          fst (scan_order demo_page ! n) = 10 \<and>
          accepted (scan_order demo_page ! n) \<and> (\<forall>m < n. \<not> accepted (scan_order demo_page ! m)))"
proof -
  have order: \<open>scan_order demo_page =
      [(2, ''div[aria-label*="message" i][contenteditable="true"]'', demo_div),
       (10, ''textarea'', demo_textarea)]\<close>
    by (simp add: scan_order_def messageInputSelectors_def demo_page_def)
  have nokey: "\<not> hasKeyword (elementText demo_textarea)"
    by (simp add: hasKeyword_def keywords_list_def toLowerCase_def lower_char_def
        elementText_def js_or_def demo_textarea_def)
  have div: \<open>\<not> accepted (2, ''div[aria-label*="message" i][contenteditable="true"]'', demo_div)\<close>
    by (simp add: accepted_def interactive_def isEditable_def demo_div_def)
  have ta: "accepted (10, ''textarea'', demo_textarea)"
    by (simp add: accepted_def interactive_def isEditable_def isFallbackSelector_def demo_textarea_def)
  from findMessageInput_first_accepted [of demo_page]
  have found: "findMessageInput demo_page = Some demo_textarea"
    by (simp add: order div ta)
  from findMessageInput_first_accepted [of demo_page] found
  obtain n where n: "n < length (scan_order demo_page)"
      "snd (snd (scan_order demo_page ! n)) = demo_textarea"
      "accepted (scan_order demo_page ! n)" "\<forall>m < n. \<not> accepted (scan_order demo_page ! m)"
    by blast
  from n(1) have "n = 0 \<or> n = 1" by (auto simp: order)
  with n(3) div have "n = 1" by (auto simp: order)
  then have "fst (scan_order demo_page ! n) = 10" by (simp add: order)
  with found nokey n show ?thesis by blast
qed

text \<open>
  With the twelve patterns of the source, every pattern is among the first ten or is
  one of the three fallback patterns (\<^verbatim>\<open>[contenteditable="true"]\<close> is both). So the
  last branch of the policy is never taken: whatever its hint, an interactive element
  met by the scan is accepted.
\<close>

lemma scan_from_selector:
  "(idx, selector, el) \<in> set (scan_from pg i sels) \<Longrightarrow>
   i \<le> idx \<and> idx < i + length sels \<and> selector = sels ! (idx - i)"
proof (induction sels arbitrary: i)
  case Nil
  then show ?case by simp
next
  case (Cons s sels)
  show ?case
  proof (cases "(idx, selector, el) \<in> set (scan_from pg (i + 1) sels)")
    case True
    from Cons.IH [OF True] show ?thesis by (auto simp: nth_Cons')
  next
    case False
    with Cons.prems show ?thesis by (auto split: option.splits)
  qed
qed

lemma every_pattern_accepts:
  assumes "(idx, selector, el) \<in> set (scan_order pg)"
  shows "accepted (idx, selector, el) = interactive el"
proof -
  from scan_from_selector [OF assms [unfolded scan_order_def]]
  have r: "idx < length messageInputSelectors" "selector = messageInputSelectors ! idx"
    by simp_all
  have "idx < 10 \<or> isFallbackSelector selector"
  proof (cases "idx < 10")
    case True
    then show ?thesis by simp
  next
    case False
    with r(1) have "idx = 10 \<or> idx = 11" by (auto simp: messageInputSelectors_def)
    with r(2) show ?thesis by (auto simp: messageInputSelectors_def isFallbackSelector_def)
  qed
  then show ?thesis by (auto simp: accepted_def)
qed

section \<open>The sending loop: what an attempt advances\<close>

lemma demo_messagesList: "messagesList demo_config = [''Hi'', ''Bye'']"
  by (simp add: demo_config_def messagesList_def trim_def isWhiteSpace_def)

lemma mutate_Some:
  "Map_get (tasks w) tid = Some obj \<Longrightarrow> mutate tid f w = w\<lparr>tasks := Map_set tid (f obj) (tasks w)\<rparr>"
  by (simp add: mutate_def)

lemma Map_set_set: "Map_set k v (Map_set k v' m) = Map_set k v m"
  by (simp add: Map_set_def)

lemma loop_body_fail:
  assumes "Map_get (tasks w) tid = Some obj" and "msgs \<noteq> []"
  shows "loop_body cfg msgs tid False now ok n w =
           (messageToSend cfg (msgs ! (messageRotationIndex obj mod length msgs)), n,
            w\<lparr>tasks := Map_set tid (obj\<lparr>messageRotationIndex := messageRotationIndex obj + 1\<rparr>) (tasks w)\<rparr>)"
  using assms by (simp add: loop_body_def getNextMessage_def)

lemma loop_body_ok:
  assumes "Map_get (tasks w) tid = Some obj" and "msgs \<noteq> []"
  shows "\<exists>w'. loop_body cfg msgs tid True now ok n w =
           (messageToSend cfg (msgs ! (messageRotationIndex obj mod length msgs)), n + 1, w')
         \<and> Map_get (tasks w') tid =
             Some (obj\<lparr>messageRotationIndex := messageRotationIndex obj + 1, messageCount := n + 1,
                       lastUpdated := now\<rparr>)"
  using assms
  by (simp add: loop_body_def getNextMessage_def mutate_Some Map_get_set Map_set_set
      updateTask_Some [where task = "obj\<lparr>messageRotationIndex := messageRotationIndex obj + 1, messageCount := n + 1\<rparr>"]
      Object_assign_def Let_def)


lemma is_running_Some: "Map_get (tasks w) tid = Some obj \<Longrightarrow> is_running tid w = running obj"
  by (simp add: is_running_def)

lemma sending_loop_attempts:
  assumes "msgs \<noteq> []"
  shows "Map_get (tasks w) tid = Some obj \<Longrightarrow> running obj \<Longrightarrow>
    \<exists>w' obj'. sending_loop cfg msgs tid (map (\<lambda>(s, now, ok). Attempt s now ok) as) n w log =
        Suspended (n + length (filter fst as)) w'
          (log @ zip (map (\<lambda>i. messageToSend cfg (msgs ! (i mod length msgs)))
                        [messageRotationIndex obj..<messageRotationIndex obj + length as])
                     (map fst as))
      \<and> Map_get (tasks w') tid = Some obj' \<and> running obj'
      \<and> messageRotationIndex obj' = messageRotationIndex obj + length as
      \<and> messageCount obj' = (if filter fst as = [] then messageCount obj else n + length (filter fst as))"
proof (induction as arbitrary: w obj n log)
  case Nil
  then show ?case by (simp add: is_running_Some)
next
  case (Cons a as)
  obtain s now ok where a: "a = (s, now, ok)" by (cases a)
  let ?c = "messageRotationIndex obj"
  let ?m = "messageToSend cfg (msgs ! (?c mod length msgs))"
  have upt: "[?c..<Suc (?c + length as)] = ?c # [Suc ?c..<Suc (?c + length as)]"
    by (simp add: upt_conv_Cons del: upt_Suc)
  show ?case
  proof (cases s)
    case True
    from loop_body_ok [OF Cons.prems(1) assms, of cfg now ok n] obtain w1 where
      w1: "loop_body cfg msgs tid True now ok n w = (?m, n + 1, w1)"
          "Map_get (tasks w1) tid =
             Some (obj\<lparr>messageRotationIndex := ?c + 1, messageCount := n + 1, lastUpdated := now\<rparr>)"
      by blast
    let ?obj1 = "obj\<lparr>messageRotationIndex := ?c + 1, messageCount := n + 1, lastUpdated := now\<rparr>"
    have r1: "running ?obj1" using Cons.prems(2) by simp
    from Cons.IH [OF w1(2) r1, of "n + 1" "log @ [(?m, True)]"]
    show ?thesis
      using Cons.prems
      by (auto simp add: a True is_running_Some w1(1) upt simp del: upt_Suc)
  next
    case False
    let ?w1 = "w\<lparr>tasks := Map_set tid (obj\<lparr>messageRotationIndex := ?c + 1\<rparr>) (tasks w)\<rparr>"
    let ?obj1 = "obj\<lparr>messageRotationIndex := ?c + 1\<rparr>"
    have g: "Map_get (tasks ?w1) tid = Some ?obj1" by (simp add: Map_get_set)
    have r1: "running ?obj1" using Cons.prems(2) by simp
    from Cons.IH [OF g r1, of n "log @ [(?m, False)]"]
    show ?thesis
      using Cons.prems
      by (auto simp add: a False is_running_Some loop_body_fail [OF Cons.prems(1) assms] upt simp del: upt_Suc)
  qed
qed


text \<open>
  C1, as the code has it. Let the task be stored under \<open>tid\<close> and running, and the
  template list be non-empty. An attempt whose send step throws leaves the count as it
  is, but it has already advanced \<^verbatim>\<open>messageRotationIndex\<close> by one, exactly as a
  successful attempt does. Over any run of attempts the rotation index therefore grows
  by one per attempt, the \<open>i\<close>-th attempt composes from template \<open>c + i\<close> (modulo the
  length), the local counter grows by one per message dispatched, and
  \<^verbatim>\<open>messageCount\<close> is that counter once a message was dispatched.
\<close>

theorem sending_loop_accounting:
  assumes "Map_get (tasks w) tid = Some obj" and "running obj" and "msgs \<noteq> []"
  shows "loop_body cfg msgs tid False now ok n w =
           (messageToSend cfg (msgs ! (messageRotationIndex obj mod length msgs)), n,
            w\<lparr>tasks := Map_set tid (obj\<lparr>messageRotationIndex := messageRotationIndex obj + 1\<rparr>) (tasks w)\<rparr>)
       \<and> (\<exists>w' obj'.
            sending_loop cfg msgs tid (map (\<lambda>(s, now, ok). Attempt s now ok) as) n w log =
              Suspended (n + length (filter fst as)) w'
                (log @ zip (map (\<lambda>i. messageToSend cfg (msgs ! (i mod length msgs)))
                              [messageRotationIndex obj..<messageRotationIndex obj + length as])
                           (map fst as))
            \<and> Map_get (tasks w') tid = Some obj'
            \<and> messageRotationIndex obj' = messageRotationIndex obj + length as
            \<and> messageCount obj' =
                (if filter fst as = [] then messageCount obj else n + length (filter fst as)))"
proof -
  from sending_loop_attempts [OF assms(3) assms(1) assms(2), of cfg as n log]
  have "\<exists>w' obj'.
            sending_loop cfg msgs tid (map (\<lambda>(s, now, ok). Attempt s now ok) as) n w log =
              Suspended (n + length (filter fst as)) w'
                (log @ zip (map (\<lambda>i. messageToSend cfg (msgs ! (i mod length msgs)))
                              [messageRotationIndex obj..<messageRotationIndex obj + length as])
                           (map fst as))
            \<and> Map_get (tasks w') tid = Some obj'
            \<and> messageRotationIndex obj' = messageRotationIndex obj + length as
            \<and> messageCount obj' =
                (if filter fst as = [] then messageCount obj else n + length (filter fst as))"
    by blast
  with loop_body_fail [OF assms(1) assms(3), of cfg now ok n] show ?thesis
    by blast
qed

lemma demo_get: "Map_get (tasks demo_world) ''RAGHAV-E2E-AB12'' = Some demo_task"
  by (simp add: demo_world_def Map_get_def)

lemma demo_prefix: "namePrefix demo_config = []"
  by (simp add: demo_config_def)

lemma demo_running: "running demo_task"
  by (simp add: demo_task_def)

lemma demo_index: "messageRotationIndex demo_task = 0" "messageCount demo_task = 0"
  by (simp_all add: demo_task_def new_PersistentAutomationState_def)

theorem sending_loop_accounting_witness:
  "\<exists>w' obj'.
     sending_loop demo_config [''Hi'', ''Bye''] ''RAGHAV-E2E-AB12''
        [Attempt False 10 True, Attempt True 20 True, Attempt False 30 False] 0 demo_world []
       = Suspended 1 w' [(''Hi'', False), (''Bye'', True), (''Hi'', False)]
     \<and> Map_get (tasks w') ''RAGHAV-E2E-AB12'' = Some obj'
     \<and> messageRotationIndex obj' = 3 \<and> messageCount obj' = 1"
proof -
  have ne: "[''Hi'', ''Bye''] \<noteq> ([] :: string list)" by simp
  have three: "[0..<3] = [0, 1, 2 :: nat]" by (simp add: upt_rec)
  from sending_loop_accounting [OF demo_get demo_running ne,
      of demo_config 0 True 0 "[(False, 10, True), (True, 20, True), (False, 30, False)]" "[]"]
  show ?thesis
    by (simp add: demo_index three messageToSend_def demo_prefix numeral_2_eq_2 [symmetric]
        del: sending_loop.simps)
qed

text \<open>
  C1 as the specification states it does not hold: on the stored task with templates
  \<^verbatim>\<open>Hi\<close> and \<^verbatim>\<open>Bye\<close> and cursor 0, one attempt whose send step throws leaves the
  cursor at 1, and the retry composes \<^verbatim>\<open>Bye\<close>, not \<^verbatim>\<open>Hi\<close> again.
\<close>

theorem failed_attempt_counterexample:
  "map_option messageRotationIndex (Map_get (tasks demo_world) ''RAGHAV-E2E-AB12'') = Some 0
   \<and> map_option messageRotationIndex
        (Map_get (tasks (snd (snd (loop_body demo_config (messagesList demo_config)
            ''RAGHAV-E2E-AB12'' False 10 True 0 demo_world)))) ''RAGHAV-E2E-AB12'') = Some 1
   \<and> loop_log (sending_loop demo_config (messagesList demo_config) ''RAGHAV-E2E-AB12''
        [Attempt False 10 True, Attempt True 20 True] 0 demo_world [])
       = [(''Hi'', False), (''Bye'', True)]"
proof -
  have ne: "[''Hi'', ''Bye''] \<noteq> ([] :: string list)" by simp
  have a: "map_option messageRotationIndex (Map_get (tasks demo_world) ''RAGHAV-E2E-AB12'') = Some 0"
    by (simp add: demo_get demo_index)
  have b: "map_option messageRotationIndex
        (Map_get (tasks (snd (snd (loop_body demo_config (messagesList demo_config)
            ''RAGHAV-E2E-AB12'' False 10 True 0 demo_world)))) ''RAGHAV-E2E-AB12'') = Some 1"
    by (simp add: demo_messagesList loop_body_fail [OF demo_get ne] Map_get_set demo_index)
  have two: "[0..<2] = [0, 1 :: nat]" by (simp add: upt_rec)
  from sending_loop_attempts [OF ne demo_get demo_running,
      of demo_config "[(False, 10, True), (True, 20, True)]" 0 "[]"]
  obtain w' where "sending_loop demo_config [''Hi'', ''Bye''] ''RAGHAV-E2E-AB12''
        [Attempt False 10 True, Attempt True 20 True] 0 demo_world []
       = Suspended 1 w' [(''Hi'', False), (''Bye'', True)]"
    by (auto simp add: demo_index two messageToSend_def demo_prefix
        numeral_2_eq_2 [symmetric] simp del: sending_loop.simps)
  then have c: "loop_log (sending_loop demo_config (messagesList demo_config) ''RAGHAV-E2E-AB12''
        [Attempt False 10 True, Attempt True 20 True] 0 demo_world [])
       = [(''Hi'', False), (''Bye'', True)]"
    by (simp add: demo_messagesList del: sending_loop.simps)
  from a b c show ?thesis by blast
qed

section \<open>Polling and stopping: how the identifier is matched\<close>

lemma getTask_tasks:
  "Map_get (tasks w) tid = Some task \<Longrightarrow>
   \<exists>w'. getTask now ok tid w = Inr (Some (task\<lparr>lastUpdated := now\<rparr>), w') \<and>
        tasks w' = Map_set tid (task\<lparr>lastUpdated := now\<rparr>) (tasks w) \<and>
        tasksFile w' = (if ok then Text (JSON_stringify (tasks w')) else tasksFile w)"
  by (simp add: getTask_Some)

lemma updateTask_tasks:
  "Map_get (tasks w) tid = Some task \<Longrightarrow>
   \<exists>w'. updateTask now ok tid u w = Inr w' \<and>
        tasks w' = Map_set tid ((Object_assign task u)\<lparr>lastUpdated := now\<rparr>) (tasks w) \<and>
        tasksFile w' = (if ok then Text (JSON_stringify (tasks w')) else tasksFile w)"
  by (simp add: updateTask_Some)

lemma stopAutomationTask_None:
  "Map_get (tasks w) tid = None \<Longrightarrow> stopAutomationTask now1 ok1 now2 ok2 tid w = Inr (False, w)"
  by (simp add: stopAutomationTask_def getTask_None)

lemma stopAutomationTask_Some:
  assumes "Map_get (tasks w) tid = Some task"
  shows "\<exists>w'. stopAutomationTask now1 ok1 now2 ok2 tid w = Inr (True, w') \<and>
           tasks w' = Map_set tid (task\<lparr>running := False, lastUpdated := now2\<rparr>) (tasks w)"
proof -
  from getTask_tasks [OF assms, of now1 ok1] obtain w1 where
    w1: "getTask now1 ok1 tid w = Inr (Some (task\<lparr>lastUpdated := now1\<rparr>), w1)"
        "tasks w1 = Map_set tid (task\<lparr>lastUpdated := now1\<rparr>) (tasks w)"
    by blast
  let ?w2 = "mutate tid (\<lambda>obj. obj\<lparr>running := False\<rparr>) w1"
  have g1: "Map_get (tasks w1) tid = Some (task\<lparr>lastUpdated := now1\<rparr>)"
    by (simp add: w1(2) Map_get_set)
  have t2: "tasks ?w2 = Map_set tid (task\<lparr>lastUpdated := now1, running := False\<rparr>) (tasks w)"
    by (simp add: mutate_Some [OF g1] w1(2) Map_set_set)
  then have g2: "Map_get (tasks ?w2) tid = Some (task\<lparr>lastUpdated := now1, running := False\<rparr>)"
    by (simp add: Map_get_set)
  from updateTask_tasks [OF g2, of now2 ok2 "\<lparr>u_running = Some False, u_messageCount = None\<rparr>"]
  obtain w3 where
    w3: "updateTask now2 ok2 tid \<lparr>u_running = Some False, u_messageCount = None\<rparr> ?w2 = Inr w3"
        "tasks w3 = Map_set tid ((Object_assign (task\<lparr>lastUpdated := now1, running := False\<rparr>)
                       \<lparr>u_running = Some False, u_messageCount = None\<rparr>)\<lparr>lastUpdated := now2\<rparr>) (tasks ?w2)"
    by blast
  have "tasks w3 = Map_set tid (task\<lparr>running := False, lastUpdated := now2\<rparr>) (tasks w)"
    by (simp add: w3(2) t2 Map_set_set Object_assign_def)
  then show ?thesis
    by (simp add: stopAutomationTask_def w1(1) w3(1))
qed

lemma find_Some_holds: "List.find P xs = Some x \<Longrightarrow> x \<in> set xs \<and> P x"
  by (induction xs) (auto split: if_splits)

lemma find_ignoring_case_finds:
  assumes "(k, t) \<in> set m" and "toUpperCase k = toUpperCase tid"
  shows "\<exists>k' t'. find_ignoring_case tid m = Some t' \<and> (k', t') \<in> set m \<and>
           toUpperCase k' = toUpperCase tid"
proof -
  let ?P = "\<lambda>(k, t). toUpperCase k = toUpperCase tid"
  from assms have "List.find ?P m \<noteq> None"
    by (auto simp: find_None_iff)
  then obtain x where x: "List.find ?P m = Some x" by blast
  then have "x \<in> set m" "?P x"
    using find_Some_holds [of ?P m x] by blast+
  with x show ?thesis
    by (cases x) (auto simp: find_ignoring_case_def)
qed

text \<open>
  C6 at a concrete registry. The stored identifier polled as it is written gives the
  status; the same identifier in lower case gives not-found from
  \<^verbatim>\<open>GET /api/get_status\<close>, and makes \<^verbatim>\<open>GET /status\<close> throw after its search, ignoring
  case, has found the task.
\<close>

theorem poll_other_case:
  "get_status 7 False ''RAGHAV-E2E-AB12'' demo_world =
     (Inr (StatusJson ''running'' ''RAGHAV-E2E-AB12''),
      demo_world\<lparr>tasks := [(''RAGHAV-E2E-AB12'', demo_task\<lparr>lastUpdated := 7\<rparr>)]\<rparr>)
   \<and> toUpperCase ''raghav-e2e-ab12'' = toUpperCase ''RAGHAV-E2E-AB12''
   \<and> get_status 7 False ''raghav-e2e-ab12'' demo_world = (Inr NotFoundJson, demo_world)
   \<and> find_ignoring_case ''raghav-e2e-ab12'' (tasks demo_world) = Some demo_task
   \<and> status_page 7 False ''raghav-e2e-ab12'' demo_world = (Inl TypeError, demo_world)
   \<and> status_page 7 False ''raghav-e2e-ab13'' demo_world = (Inr NotFoundPage, demo_world)"
proof -
  have up: "toUpperCase ''raghav-e2e-ab12'' = ''RAGHAV-E2E-AB12''"
           "toUpperCase ''RAGHAV-E2E-AB12'' = ''RAGHAV-E2E-AB12''"
           "toUpperCase ''raghav-e2e-ab13'' = ''RAGHAV-E2E-AB13''"
    by (simp_all add: toUpperCase_def upper_char_def)
  have none: "Map_get (tasks demo_world) ''raghav-e2e-ab12'' = None"
             "Map_get (tasks demo_world) ''raghav-e2e-ab13'' = None"
    by (simp_all add: demo_world_def Map_get_def)
  have f: "find_ignoring_case ''raghav-e2e-ab12'' (tasks demo_world) = Some demo_task"
          "find_ignoring_case ''raghav-e2e-ab13'' (tasks demo_world) = None"
    by (simp_all add: find_ignoring_case_def up demo_world_def)
  have a: "get_status 7 False ''RAGHAV-E2E-AB12'' demo_world =
     (Inr (StatusJson ''running'' ''RAGHAV-E2E-AB12''),
      demo_world\<lparr>tasks := [(''RAGHAV-E2E-AB12'', demo_task\<lparr>lastUpdated := 7\<rparr>)]\<rparr>)"
    by (simp add: get_status_def getTask_Some [OF demo_get] demo_running)
       (simp add: demo_world_def Map_set_def demo_task_def new_PersistentAutomationState_def)
  have b: "get_status 7 False ''raghav-e2e-ab12'' demo_world = (Inr NotFoundJson, demo_world)"
    by (simp add: get_status_def getTask_None [OF none(1)])
  have c: "status_page 7 False ''raghav-e2e-ab12'' demo_world = (Inl TypeError, demo_world)"
    by (simp add: status_page_def getTask_None [OF none(1)] getAllTasks_def f)
  have d: "status_page 7 False ''raghav-e2e-ab13'' demo_world = (Inr NotFoundPage, demo_world)"
    by (simp add: status_page_def getTask_None [OF none(2)] getAllTasks_def f)
  from a b c d f(1) up show ?thesis by simp
qed

text \<open>
  C10, as the code has it. \<^verbatim>\<open>stopAutomationTask\<close> looks the identifier up as it is
  written. The stop succeeds exactly when a task is stored under exactly that key: then
  the task's flag is cleared (and its \<^verbatim>\<open>lastUpdated\<close> refreshed), every other key
  stays bound as before, and the route reports success. When no task is stored under
  exactly that key, as for a stored identifier written in another letter case, the
  stop reports not-found and leaves the registry and the file unchanged.
\<close>

theorem stop_exact_match:
  "(\<forall>task. Map_get (tasks w) tid = Some task \<longrightarrow>
      (\<exists>w'. stopAutomationTask now1 ok1 now2 ok2 tid w = Inr (True, w') \<and>
            stop_automation now1 ok1 now2 ok2 tid w = (Inr (StoppedJson tid), w') \<and>
            Map_get (tasks w') tid = Some (task\<lparr>running := False, lastUpdated := now2\<rparr>) \<and>
            (\<forall>k. k \<noteq> tid \<longrightarrow> Map_get (tasks w') k = Map_get (tasks w) k)))
   \<and> (Map_get (tasks w) tid = None \<longrightarrow>
        stopAutomationTask now1 ok1 now2 ok2 tid w = Inr (False, w) \<and>
        stop_automation now1 ok1 now2 ok2 tid w = (Inr NotFoundJson, w))
   \<and> ((fst (stop_automation now1 ok1 now2 ok2 tid w) = Inr (StoppedJson tid))
         = (\<exists>task. Map_get (tasks w) tid = Some task))"
proof -
  have a: "\<exists>w'. stopAutomationTask now1 ok1 now2 ok2 tid w = Inr (True, w') \<and>
            stop_automation now1 ok1 now2 ok2 tid w = (Inr (StoppedJson tid), w') \<and>
            Map_get (tasks w') tid = Some (task\<lparr>running := False, lastUpdated := now2\<rparr>) \<and>
            (\<forall>k. k \<noteq> tid \<longrightarrow> Map_get (tasks w') k = Map_get (tasks w) k)"
    if "Map_get (tasks w) tid = Some task" for task
  proof -
    from stopAutomationTask_Some [OF that, of now1 ok1 now2 ok2] obtain w' where
      w': "stopAutomationTask now1 ok1 now2 ok2 tid w = Inr (True, w')"
          "tasks w' = Map_set tid (task\<lparr>running := False, lastUpdated := now2\<rparr>) (tasks w)"
      by blast
    then show ?thesis
      by (simp add: stop_automation_def Map_get_set)
  qed
  have b: "stopAutomationTask now1 ok1 now2 ok2 tid w = Inr (False, w) \<and>
        stop_automation now1 ok1 now2 ok2 tid w = (Inr NotFoundJson, w)"
    if "Map_get (tasks w) tid = None"
    using that by (simp add: stop_automation_def stopAutomationTask_None)
  have c: "(fst (stop_automation now1 ok1 now2 ok2 tid w) = Inr (StoppedJson tid))
         = (\<exists>task. Map_get (tasks w) tid = Some task)"
  proof (cases "Map_get (tasks w) tid")
    case None
    with b show ?thesis by simp
  next
    case (Some task)
    with a [OF Some] show ?thesis by auto
  qed
  from a b c show ?thesis by blast
qed

theorem stop_exact_match_witness:
  "stop_automation 7 True 8 True ''raghav-e2e-ab12'' demo_world = (Inr NotFoundJson, demo_world)
   \<and> toUpperCase ''raghav-e2e-ab12'' = toUpperCase ''RAGHAV-E2E-AB12''
   \<and> (\<exists>w'. stop_automation 7 True 8 True ''RAGHAV-E2E-AB12'' demo_world
              = (Inr (StoppedJson ''RAGHAV-E2E-AB12''), w') \<and>
            Map_get (tasks w') ''RAGHAV-E2E-AB12'' = Some (demo_task\<lparr>running := False, lastUpdated := 8\<rparr>))"
proof -
  have none: "Map_get (tasks demo_world) ''raghav-e2e-ab12'' = None"
    by (simp add: demo_world_def Map_get_def)
  have same: "toUpperCase ''raghav-e2e-ab12'' = toUpperCase ''RAGHAV-E2E-AB12''"
    by (simp add: toUpperCase_def upper_char_def)
  from stop_exact_match [of demo_world "''raghav-e2e-ab12''" 7 True 8 True] none
  have a: "stop_automation 7 True 8 True ''raghav-e2e-ab12'' demo_world = (Inr NotFoundJson, demo_world)"
    by blast
  from stop_exact_match [of demo_world "''RAGHAV-E2E-AB12''" 7 True 8 True] demo_get
  have c: "\<exists>w'. stop_automation 7 True 8 True ''RAGHAV-E2E-AB12'' demo_world
              = (Inr (StoppedJson ''RAGHAV-E2E-AB12''), w') \<and>
            Map_get (tasks w') ''RAGHAV-E2E-AB12'' = Some (demo_task\<lparr>running := False, lastUpdated := 8\<rparr>)"
    by blast
  from a same c show ?thesis by blast
qed

text \<open>
  C10 as stated does not hold in its last clause: for the stored identifier written in
  lower case, which the stop does not find, neither poll route resolves the task
  either. \<^verbatim>\<open>GET /api/get_status\<close> answers not-found, and \<^verbatim>\<open>GET /status\<close> throws.
\<close>

theorem poll_resolves_counterexample:
  "fst (stop_automation 7 True 8 True ''raghav-e2e-ab12'' demo_world) = Inr NotFoundJson
   \<and> fst (get_status 9 True ''raghav-e2e-ab12'' demo_world) = Inr NotFoundJson
   \<and> fst (status_page 9 True ''raghav-e2e-ab12'' demo_world) = Inl TypeError"
proof -
  have none: "Map_get (tasks demo_world) ''raghav-e2e-ab12'' = None"
    by (simp add: demo_world_def Map_get_def)
  have up: "toUpperCase ''raghav-e2e-ab12'' = ''RAGHAV-E2E-AB12''"
           "toUpperCase ''RAGHAV-E2E-AB12'' = ''RAGHAV-E2E-AB12''"
    by (simp_all add: toUpperCase_def upper_char_def)
  have f: "find_ignoring_case ''raghav-e2e-ab12'' (tasks demo_world) = Some demo_task"
    by (simp add: find_ignoring_case_def up demo_world_def)
  have a: "fst (stop_automation 7 True 8 True ''raghav-e2e-ab12'' demo_world) = Inr NotFoundJson"
    by (simp add: stop_automation_def stopAutomationTask_None [OF none])
  have b: "fst (get_status 9 True ''raghav-e2e-ab12'' demo_world) = Inr NotFoundJson"
    by (simp add: get_status_def getTask_None [OF none])
  have c: "fst (status_page 9 True ''raghav-e2e-ab12'' demo_world) = Inl TypeError"
    by (simp add: status_page_def getTask_None [OF none] getAllTasks_def f)
  from a b c show ?thesis by blast
qed

section \<open>The running flag goes one way\<close>

lemma getTask_keeps:
  assumes "Map_get (tasks w) k = Some t"
  shows "\<exists>r w' t'. getTask now ok tid w = Inr (r, w') \<and> Map_get (tasks w') k = Some t' \<and>
           running t' = running t"
proof (cases "Map_get (tasks w) tid")
  case None
  with assms show ?thesis by (simp add: getTask_None)
next
  case (Some task)
  from getTask_tasks [OF Some, of now ok] assms Some show ?thesis
    by (cases "k = tid") (auto simp: Map_get_set)
qed

lemma updateTask_keeps:
  assumes "Map_get (tasks w) k = Some t" and "u_running u \<noteq> Some True"
  shows "\<exists>w' t'. updateTask now ok tid u w = Inr w' \<and> Map_get (tasks w') k = Some t' \<and>
           (running t' \<longrightarrow> running t)"
proof (cases "Map_get (tasks w) tid")
  case None
  with assms show ?thesis by (simp add: updateTask_None)
next
  case (Some task)
  from updateTask_tasks [OF Some, of now ok u] assms Some show ?thesis
    by (cases "k = tid") (auto simp: Map_get_set Object_assign_def Let_def split: option.splits)
qed

lemma mutate_keeps:
  assumes "Map_get (tasks w) k = Some t" and "\<And>obj. running (f obj) \<longrightarrow> running obj"
  shows "\<exists>t'. Map_get (tasks (mutate tid f w)) k = Some t' \<and> (running t' \<longrightarrow> running t)"
  using assms by (cases "k = tid") (auto simp: mutate_def Map_get_set split: option.splits)

lemma get_status_keeps:
  assumes "Map_get (tasks w) k = Some t"
  shows "\<exists>t'. Map_get (tasks (snd (get_status now ok tid w))) k = Some t' \<and> (running t' \<longrightarrow> running t)"
proof -
  from getTask_keeps [OF assms, of now ok tid] obtain r w' t' where
    "getTask now ok tid w = Inr (r, w')" "Map_get (tasks w') k = Some t'" "running t' = running t"
    by blast
  then show ?thesis
    by (cases r) (simp_all add: get_status_def)
qed

lemma status_page_keeps:
  assumes "Map_get (tasks w) k = Some t"
  shows "\<exists>t'. Map_get (tasks (snd (status_page now ok tid w))) k = Some t' \<and> (running t' \<longrightarrow> running t)"
proof -
  from getTask_keeps [OF assms, of now ok tid] obtain r w' t' where
    "getTask now ok tid w = Inr (r, w')" "Map_get (tasks w') k = Some t'" "running t' = running t"
    by blast
  then show ?thesis
    by (cases r) (simp_all add: status_page_def getAllTasks_def split: option.splits)
qed

lemma stop_automation_keeps:
  assumes "Map_get (tasks w) k = Some t"
  shows "\<exists>t'. Map_get (tasks (snd (stop_automation now1 ok1 now2 ok2 tid w))) k = Some t' \<and>
           (running t' \<longrightarrow> running t)"
proof (cases "Map_get (tasks w) tid")
  case None
  with assms show ?thesis
    by (simp add: stop_automation_def stopAutomationTask_None)
next
  case (Some task)
  from stopAutomationTask_Some [OF Some, of now1 ok1 now2 ok2] obtain w' where
    "stopAutomationTask now1 ok1 now2 ok2 tid w = Inr (True, w')"
    "tasks w' = Map_set tid (task\<lparr>running := False, lastUpdated := now2\<rparr>) (tasks w)"
    by blast
  with assms show ?thesis
    by (cases "k = tid") (simp_all add: stop_automation_def Map_get_set)
qed

lemma serve_keeps:
  assumes "Map_get (tasks w) k = Some t"
  shows "\<exists>t'. Map_get (tasks (snd (serve r w))) k = Some t' \<and> (running t' \<longrightarrow> running t)"
  using get_status_keeps [OF assms] status_page_keeps [OF assms] stop_automation_keeps [OF assms]
  by (cases r) simp_all

lemma loop_body_keeps:
  assumes "Map_get (tasks w) k = Some t"
  shows "\<exists>t'. Map_get (tasks (snd (snd (loop_body cfg msgs tid send_ok now ok n w)))) k = Some t' \<and>
           running t' = running t"
proof (cases "Map_get (tasks w) tid")
  case None
  with assms show ?thesis by (simp add: loop_body_def)
next
  case (Some obj)
  obtain m obj' where g: "getNextMessage msgs (Some obj) = (m, Some obj')" "running obj' = running obj"
    by (cases "msgs = []") (auto simp: getNextMessage_def)
  let ?w1 = "w\<lparr>tasks := Map_set tid obj' (tasks w)\<rparr>"
  have k1: "\<exists>t1. Map_get (tasks ?w1) k = Some t1 \<and> running t1 = running t"
    using assms Some g(2) by (cases "k = tid") (auto simp: Map_get_set)
  show ?thesis
  proof (cases send_ok)
    case False
    with k1 Some g show ?thesis by (simp add: loop_body_def)
  next
    case True
    have g1: "Map_get (tasks ?w1) tid = Some obj'" by (simp add: Map_get_set)
    let ?w2 = "mutate tid (\<lambda>st. st\<lparr>messageCount := Suc n\<rparr>) ?w1"
    have t2: "tasks ?w2 = Map_set tid (obj'\<lparr>messageCount := Suc n\<rparr>) (tasks w)"
      by (simp add: mutate_Some [OF g1] Map_set_set)
    then have g2: "Map_get (tasks ?w2) tid = Some (obj'\<lparr>messageCount := Suc n\<rparr>)"
      by (simp add: Map_get_set)
    from updateTask_tasks [OF g2, of now ok "\<lparr>u_running = None, u_messageCount = Some (Suc n)\<rparr>"]
    obtain w3 where w3:
      "updateTask now ok tid \<lparr>u_running = None, u_messageCount = Some (Suc n)\<rparr> ?w2 = Inr w3"
      "tasks w3 = Map_set tid ((Object_assign (obj'\<lparr>messageCount := Suc n\<rparr>)
          \<lparr>u_running = None, u_messageCount = Some (Suc n)\<rparr>)\<lparr>lastUpdated := now\<rparr>) (tasks ?w2)"
      by blast
    have "\<exists>t'. Map_get (tasks w3) k = Some t' \<and> running t' = running t"
      using assms Some g(2)
      by (cases "k = tid") (auto simp: w3(2) t2 Map_get_set Object_assign_def)
    with True Some g w3(1) show ?thesis
      by (simp add: loop_body_def Let_def)
  qed
qed

lemma mark_stopped_keeps:
  assumes "Map_get (tasks w) k = Some t"
  shows "\<exists>t'. Map_get (tasks (mark_stopped now ok tid w)) k = Some t' \<and> (running t' \<longrightarrow> running t)"
proof -
  from updateTask_keeps [OF assms, of "\<lparr>u_running = Some False, u_messageCount = None\<rparr>" now ok tid]
  show ?thesis by (auto simp: mark_stopped_def)
qed

lemma finally_block_keeps:
  assumes "Map_get (tasks w) k = Some t"
  shows "\<exists>t'. Map_get (tasks (finally_block now ok tid w)) k = Some t' \<and> (running t' \<longrightarrow> running t)"
proof (cases "Map_get (tasks w) tid")
  case None
  with assms show ?thesis by (simp add: finally_block_def)
next
  case (Some obj)
  from updateTask_keeps [OF assms, of "\<lparr>u_running = Some False, u_messageCount = Some (messageCount obj)\<rparr>" now ok tid]
  show ?thesis using Some by (auto simp: finally_block_def)
qed

lemma startAutomationTask_result:
  "\<exists>w'. startAutomationTask tid created started ok cfg w = Inr (tid, w') \<and>
     tasks w' = Map_set tid ((new_PersistentAutomationState created tid)
            \<lparr>running := True, startTime := Some started, config := Some cfg, processId := Some tid\<rparr>) (tasks w)"
  by (simp add: startAutomationTask_def addTask_def saveTasks_result Let_def)

lemma apply_event_keeps:
  assumes "Map_get (tasks w) k = Some t"
    and "case e of
           EvStart tid created started ok cfg \<Rightarrow> Map_get (tasks w) tid = None
         | EvLoad currentTime \<Rightarrow> False
         | EvRestart currentTime \<Rightarrow> False
         | _ \<Rightarrow> True"
  shows "\<exists>t'. Map_get (tasks (apply_event e w)) k = Some t' \<and> (running t' \<longrightarrow> running t)"
proof (cases e)
  case (EvStart tid created started ok cfg)
  with assms have ne: "k \<noteq> tid" by auto
  from startAutomationTask_result [of tid created started ok cfg w] obtain w' where
    "startAutomationTask tid created started ok cfg w = Inr (tid, w')"
    "tasks w' = Map_set tid ((new_PersistentAutomationState created tid)
            \<lparr>running := True, startTime := Some started, config := Some cfg, processId := Some tid\<rparr>) (tasks w)"
    by blast
  with ne assms(1) show ?thesis by (simp add: EvStart Map_get_set)
next
  case (EvRequest r)
  with serve_keeps [OF assms(1), of r] show ?thesis by simp
next
  case (EvLoopBody cfg tid send_ok now ok n)
  with loop_body_keeps [OF assms(1), of cfg "messagesList cfg" tid send_ok now ok n] show ?thesis
    by auto
next
  case (EvMarkStopped tid now ok)
  with mark_stopped_keeps [OF assms(1), of now ok tid] show ?thesis by simp
next
  case (EvFinally tid now ok)
  with finally_block_keeps [OF assms(1), of now ok tid] show ?thesis by simp
next
  case (EvLoad currentTime)
  with assms(2) show ?thesis by simp
next
  case (EvRestart currentTime)
  with assms(2) show ?thesis by simp
qed

lemma run_keeps:
  "within_lifetime evs w \<Longrightarrow> Map_get (tasks w) k = Some t \<Longrightarrow>
   \<exists>t'. Map_get (tasks (run evs w)) k = Some t' \<and> (running t' \<longrightarrow> running t)"
proof (induction evs arbitrary: w t)
  case Nil
  then show ?case by simp
next
  case (Cons e evs)
  from Cons.prems have f: "case e of
           EvStart tid created started ok cfg \<Rightarrow> Map_get (tasks w) tid = None
         | EvLoad currentTime \<Rightarrow> False
         | EvRestart currentTime \<Rightarrow> False
         | _ \<Rightarrow> True"
    and rest: "within_lifetime evs (apply_event e w)" by simp_all
  from apply_event_keeps [OF Cons.prems(2) f] obtain t1 where
    t1: "Map_get (tasks (apply_event e w)) k = Some t1" "running t1 \<longrightarrow> running t" by blast
  from Cons.IH [OF rest t1(1)] t1(2) show ?case by auto
qed

lemma sending_loop_keeps:
  "Map_get (tasks w) k = Some t \<Longrightarrow>
   \<exists>t'. Map_get (tasks (loop_world (sending_loop cfg msgs tid steps n w log))) k = Some t' \<and>
         (running t' \<longrightarrow> running t)"
proof (induction steps arbitrary: w t n log)
  case Nil
  then show ?case by simp
next
  case (Cons s steps)
  show ?case
  proof (cases s)
    case (Request r)
    from serve_keeps [OF Cons.prems, of r] obtain t1 where
      t1: "Map_get (tasks (snd (serve r w))) k = Some t1" "running t1 \<longrightarrow> running t" by blast
    from Cons.IH [OF t1(1), of n log] t1(2) show ?thesis by (auto simp: Request)
  next
    case (Attempt send_ok now ok)
    show ?thesis
    proof (cases "is_running tid w")
      case False
      with Cons.prems show ?thesis by (simp add: Attempt)
    next
      case True
      obtain m n' w' where lb: "loop_body cfg msgs tid send_ok now ok n w = (m, n', w')"
        by (cases "loop_body cfg msgs tid send_ok now ok n w") auto
      from loop_body_keeps [OF Cons.prems, of cfg msgs tid send_ok now ok n] lb obtain t1 where
        t1: "Map_get (tasks w') k = Some t1" "running t1 = running t" by auto
      from Cons.IH [OF t1(1), of n' "log @ [(m, send_ok)]"] t1(2) show ?thesis
        by (auto simp: Attempt True lb)
    qed
  qed
qed

lemma sending_loop_Exited:
  "sending_loop cfg msgs tid steps n w log = Exited n' w' log' \<Longrightarrow> \<not> is_running tid w'"
proof (induction steps arbitrary: w n log)
  case Nil
  then show ?case by (simp split: if_splits)
next
  case (Cons s steps)
  show ?case
  proof (cases s)
    case (Request r)
    with Cons show ?thesis by simp
  next
    case (Attempt send_ok now ok)
    with Cons show ?thesis
      by (cases "loop_body cfg msgs tid send_ok now ok n w") (auto split: if_splits)
  qed
qed


lemma finally_block_stops: "\<not> is_running tid (finally_block now ok tid w)"
proof (cases "Map_get (tasks w) tid")
  case None
  then show ?thesis by (simp add: finally_block_def is_running_def)
next
  case (Some obj)
  from updateTask_tasks [OF Some, of now ok "\<lparr>u_running = Some False, u_messageCount = Some (messageCount obj)\<rparr>"]
  show ?thesis
    using Some by (auto simp: finally_block_def is_running_def Map_get_set Object_assign_def)
qed

lemma sendMessages_keeps:
  assumes "Map_get (tasks w) k = Some t"
  shows "\<exists>t'. Map_get (tasks (snd (sendMessages cfg tid su now1 ok1 now2 ok2 steps w))) k = Some t' \<and>
           (running t' \<longrightarrow> running t)"
proof -
  have early: "\<exists>t'. Map_get (tasks (finally_block now2 ok2 tid (mark_stopped now1 ok1 tid w))) k = Some t' \<and>
           (running t' \<longrightarrow> running t)"
  proof -
    from mark_stopped_keeps [OF assms, of now1 ok1 tid] obtain t1 where
      t1: "Map_get (tasks (mark_stopped now1 ok1 tid w)) k = Some t1" "running t1 \<longrightarrow> running t"
      by blast
    from finally_block_keeps [OF t1(1), of now2 ok2 tid] t1(2) show ?thesis by auto
  qed
  show ?thesis
  proof (cases su)
    case SetupThrows
    with early show ?thesis by (simp add: sendMessages_def)
  next
    case (Opened pg)
    show ?thesis
    proof (cases "findMessageInput pg")
      case None
      with early Opened show ?thesis by (simp add: sendMessages_def)
    next
      case (Some messageInput)
      from sending_loop_keeps [OF assms, of cfg "messagesList cfg" tid steps 0 "[]"] obtain t1 where
        t1: "Map_get (tasks (loop_world (sending_loop cfg (messagesList cfg) tid steps 0 w []))) k = Some t1"
            "running t1 \<longrightarrow> running t"
        by blast
      show ?thesis
      proof (cases "sending_loop cfg (messagesList cfg) tid steps 0 w []")
        case (Suspended n w' log)
        with t1 Opened Some show ?thesis by (auto simp: sendMessages_def)
      next
        case (Exited n w' log)
        with t1 have "Map_get (tasks w') k = Some t1" by simp
        from finally_block_keeps [OF this, of now2 ok2 tid] t1(2) Exited Opened Some
        show ?thesis by (auto simp: sendMessages_def)
      qed
    qed
  qed
qed

lemma sendMessages_returned:
  "fst (sendMessages cfg tid su now1 ok1 now2 ok2 steps w) = Some n \<Longrightarrow>
   \<not> is_running tid (snd (sendMessages cfg tid su now1 ok1 now2 ok2 steps w))"
  by (auto simp: sendMessages_def finally_block_stops
      split: setup_outcome.splits option.splits loop_result.splits)

text \<open>
  C7, as the code has it. The constructor leaves \<^verbatim>\<open>running\<close> false, and the task
  that \<^verbatim>\<open>startAutomationTask\<close> puts into the registry has it true: the flag is set
  on the new object before \<^verbatim>\<open>addTask\<close>. Within one process whose registry has been
  loaded, and as long as every start draws an identifier that the registry does not
  hold yet, no code sets the flag to true again: along every such run of events
  (starts, polls, page requests, stops, and the loop bodies, early updates and
  \<^verbatim>\<open>finally\<close> blocks of the sessions, in any order) every task stays in the
  registry, and a task whose flag is true at the end had it true at the beginning. The
  same holds across a whole call of \<^verbatim>\<open>sendMessages\<close>, and when that call has returned
  the flag of its task is false.
\<close>

theorem running_one_way:
  "\<not> running (new_PersistentAutomationState created tid)
   \<and> (\<exists>w' t. startAutomationTask tid created started ok cfg w = Inr (tid, w') \<and>
          Map_get (tasks w') tid = Some t \<and> running t)
   \<and> (within_lifetime evs w \<and> Map_get (tasks w) k = Some t0 \<longrightarrow>
        (\<exists>t1. Map_get (tasks (run evs w)) k = Some t1 \<and> (running t1 \<longrightarrow> running t0)))
   \<and> (Map_get (tasks w) k = Some t0 \<longrightarrow>
        (\<exists>t1. Map_get (tasks (snd (sendMessages cfg tid su now1 ok1 now2 ok2 steps w))) k = Some t1 \<and>
              (running t1 \<longrightarrow> running t0)))
   \<and> (\<forall>n. fst (sendMessages cfg tid su now1 ok1 now2 ok2 steps w) = Some n \<longrightarrow>
        \<not> is_running tid (snd (sendMessages cfg tid su now1 ok1 now2 ok2 steps w)))"
proof -
  have a: "\<not> running (new_PersistentAutomationState created tid)"
    by (simp add: new_PersistentAutomationState_def)
  have b: "\<exists>w' t. startAutomationTask tid created started ok cfg w = Inr (tid, w') \<and>
          Map_get (tasks w') tid = Some t \<and> running t"
    using startAutomationTask_result [of tid created started ok cfg w]
    by (auto simp: Map_get_set)
  from a b run_keeps [of evs w k t0] sendMessages_keeps [of w k t0 cfg tid su now1 ok1 now2 ok2 steps]
    sendMessages_returned [of cfg tid su now1 ok1 now2 ok2 steps w]
  show ?thesis by blast
qed

theorem running_one_way_witness:
  "(\<exists>t1. Map_get (tasks (run [EvStart ''RAGHAV-E2E-CD34'' 12 12 True demo_config,
                                EvLoopBody demo_config ''RAGHAV-E2E-AB12'' True 13 True 0,
                                EvRequest (PollReq ''RAGHAV-E2E-AB12'' 14 True),
                                EvRequest (StopReq ''RAGHAV-E2E-AB12'' 15 True 16 False),
                                EvFinally ''RAGHAV-E2E-AB12'' 17 True] demo_stopped_world))
              ''RAGHAV-E2E-AB12'' = Some t1 \<and> \<not> running t1)
   \<and> (\<exists>t1. Map_get (tasks (snd (sendMessages demo_config ''RAGHAV-E2E-AB12'' SetupThrows 6 True 7 True []
                 demo_stopped_world))) ''RAGHAV-E2E-AB12'' = Some t1 \<and> \<not> running t1)
   \<and> \<not> is_running ''RAGHAV-E2E-AB12''
        (snd (sendMessages demo_config ''RAGHAV-E2E-AB12'' SetupThrows 6 True 7 True [] demo_world))"
proof -
  let ?evs = "[EvStart ''RAGHAV-E2E-CD34'' 12 12 True demo_config,
               EvLoopBody demo_config ''RAGHAV-E2E-AB12'' True 13 True 0,
               EvRequest (PollReq ''RAGHAV-E2E-AB12'' 14 True),
               EvRequest (StopReq ''RAGHAV-E2E-AB12'' 15 True 16 False),
               EvFinally ''RAGHAV-E2E-AB12'' 17 True]"
  have fresh: "within_lifetime ?evs demo_stopped_world"
    by (simp add: demo_stopped_world_def Map_get_def)
  have got: "Map_get (tasks demo_stopped_world) ''RAGHAV-E2E-AB12'' = Some (demo_task\<lparr>running := False\<rparr>)"
    by (simp add: demo_stopped_world_def Map_get_def)
  have ret: "fst (sendMessages demo_config ''RAGHAV-E2E-AB12'' SetupThrows 6 True 7 True [] demo_world) = Some 0"
    by (simp add: sendMessages_def)
  from running_one_way [of 0 "''RAGHAV-E2E-AB12''" 0 True demo_config demo_stopped_world ?evs
      "''RAGHAV-E2E-AB12''" "demo_task\<lparr>running := False\<rparr>" SetupThrows 6 True 7 True "[]"] fresh got
  have a: "\<exists>t1. Map_get (tasks (run ?evs demo_stopped_world)) ''RAGHAV-E2E-AB12'' = Some t1 \<and> \<not> running t1"
    and b: "\<exists>t1. Map_get (tasks (snd (sendMessages demo_config ''RAGHAV-E2E-AB12'' SetupThrows 6 True 7 True []
                 demo_stopped_world))) ''RAGHAV-E2E-AB12'' = Some t1 \<and> \<not> running t1"
    by auto
  from running_one_way [of 0 "''RAGHAV-E2E-AB12''" 0 True demo_config demo_world "[]"
      "''RAGHAV-E2E-AB12''" demo_task SetupThrows 6 True 7 True "[]"] ret
  have c: "\<not> is_running ''RAGHAV-E2E-AB12''
        (snd (sendMessages demo_config ''RAGHAV-E2E-AB12'' SetupThrows 6 True 7 True [] demo_world))"
    by blast
  from a b c show ?thesis by blast
qed

lemma stopAutomationTask_unsaved:
  assumes "Map_get (tasks w) tid = Some task"
  shows "stopAutomationTask now1 False now2 False tid w =
           Inr (True, w\<lparr>tasks := Map_set tid (task\<lparr>running := False, lastUpdated := now2\<rparr>) (tasks w)\<rparr>)"
proof -
  let ?w1 = "w\<lparr>tasks := Map_set tid (task\<lparr>lastUpdated := now1\<rparr>) (tasks w)\<rparr>"
  have g1: "Map_get (tasks ?w1) tid = Some (task\<lparr>lastUpdated := now1\<rparr>)"
    by (simp add: Map_get_set)
  let ?w2 = "mutate tid (\<lambda>obj. obj\<lparr>running := False\<rparr>) ?w1"
  have t2: "?w2 = w\<lparr>tasks := Map_set tid (task\<lparr>lastUpdated := now1, running := False\<rparr>) (tasks w)\<rparr>"
    by (simp add: mutate_Some [OF g1] Map_set_set)
  have g2: "Map_get (tasks ?w2) tid = Some (task\<lparr>lastUpdated := now1, running := False\<rparr>)"
    unfolding t2 by (simp add: Map_get_set)
  have u: "updateTask now2 False tid \<lparr>u_running = Some False, u_messageCount = None\<rparr> ?w2 =
      Inr (w\<lparr>tasks := Map_set tid (task\<lparr>running := False, lastUpdated := now2\<rparr>) (tasks w)\<rparr>)"
    unfolding updateTask_Some [OF g2] unfolding t2
    by (simp add: Object_assign_def Map_set_set)
  show ?thesis
    by (simp add: stopAutomationTask_def getTask_Some [OF assms] u)
qed

text \<open>
  C7 as the specification states it does not hold. A task is started with the write
  succeeding, so the file records it with the flag true, and stopped while both writes
  of the stop fail, so the flag is false in memory only. After a restart
  \<^verbatim>\<open>loadTasks\<close> takes the flag from the file, and the stopped task is running again.
  And a start whose generated identifier is the key of a stopped task binds that key
  to a running task.
\<close>

theorem running_resurrected_counterexample:
  "map_option running
     (Map_get (tasks (run [EvStart ''RAGHAV-E2E-AB12'' 5 5 True demo_config,
                           EvRequest (StopReq ''RAGHAV-E2E-AB12'' 10 False 11 False)] empty_world))
        ''RAGHAV-E2E-AB12'') = Some False
   \<and> map_option running
     (Map_get (tasks (run [EvStart ''RAGHAV-E2E-AB12'' 5 5 True demo_config,
                           EvRequest (StopReq ''RAGHAV-E2E-AB12'' 10 False 11 False),
                           EvRestart 20] empty_world))
        ''RAGHAV-E2E-AB12'') = Some True
   \<and> map_option running (Map_get (tasks demo_stopped_world) ''RAGHAV-E2E-AB12'') = Some False
   \<and> map_option running
     (Map_get (tasks (apply_event (EvStart ''RAGHAV-E2E-AB12'' 12 12 True demo_config) demo_stopped_world))
        ''RAGHAV-E2E-AB12'') = Some True"
proof -
  let ?tid = "''RAGHAV-E2E-AB12''"
  let ?W1 = "\<lparr> tasks = [(?tid, demo_task)], tasksFile = Text (JSON_stringify [(?tid, demo_task)]) \<rparr>"
  let ?W2 = "\<lparr> tasks = [(?tid, demo_task\<lparr>running := False, lastUpdated := 11\<rparr>)],
              tasksFile = Text (JSON_stringify [(?tid, demo_task)]) \<rparr>"
  have e1: "apply_event (EvStart ?tid 5 5 True demo_config) empty_world = ?W1"
    by (simp add: startAutomationTask_def addTask_def saveTasks_result empty_world_def
        Map_set_def demo_task_def Let_def)
  have g1: "Map_get (tasks ?W1) ?tid = Some demo_task"
    by (simp add: Map_get_def)
  have e2: "apply_event (EvRequest (StopReq ?tid 10 False 11 False)) ?W1 = ?W2"
    by (simp add: stop_automation_def stopAutomationTask_unsaved [OF g1] Map_set_def)
  have e3: "tasks (apply_event (EvRestart 20) ?W2) = [(?tid, demo_task)]"
    by (simp add: new_TaskManager_def loadTasks_def loadTasks_try_def fs_readFile_def
        JSON_parse_def JSON_stringify_def toJSON_def assign_taskData_def Map_set_def
        demo_task_def new_PersistentAutomationState_def)
  have a: "map_option running (Map_get (tasks (run [EvStart ?tid 5 5 True demo_config,
                           EvRequest (StopReq ?tid 10 False 11 False)] empty_world)) ?tid) = Some False"
    by (simp add: e1 e2 Map_get_def del: apply_event.simps)
  have b: "map_option running (Map_get (tasks (run [EvStart ?tid 5 5 True demo_config,
                           EvRequest (StopReq ?tid 10 False 11 False),
                           EvRestart 20] empty_world)) ?tid) = Some True"
    by (simp add: e1 e2 e3 Map_get_def demo_running del: apply_event.simps)
  have c: "map_option running (Map_get (tasks demo_stopped_world) ?tid) = Some False"
    by (simp add: demo_stopped_world_def Map_get_def)
  have d: "map_option running
     (Map_get (tasks (apply_event (EvStart ?tid 12 12 True demo_config) demo_stopped_world)) ?tid) = Some True"
    using startAutomationTask_result [of ?tid 12 12 True demo_config demo_stopped_world]
    by (auto simp: Map_get_set)
  from a b c d show ?thesis by blast
qed

end
